theory Spec2Isabelle
  imports Complex_Main "HOL-Library.Word" "HOL-Library.Monad_Syntax"
begin

unbundle bit_operations_syntax

section \<open>Data model of \<open>src/utils/audioUtils.ts\<close>\<close>

text \<open>
  The three functions of \<open>audioUtils.ts\<close> work on typed arrays. A typed array is a view
  (buffer, byte offset, length) on an \<open>ArrayBuffer\<close>; several views may share one buffer,
  and \<open>x.buffer\<close> is the whole buffer, whatever the offset and length of the view \<open>x\<close>.
  The store below holds the buffers: a cell is the content of an \<open>ArrayBuffer\<close> or the
  sample storage behind one channel of an \<open>AudioBuffer\<close>, and an address is an index
  into the store.

  A cell keeps its kind: the sample store of an \<open>AudioBuffer\<close> is never a view on the
  bytes of an \<open>ArrayBuffer\<close>, so a write through a \<open>Float32Array\<close> changes no byte.

  Numbers. Byte counts, sample rates and channel counts are natural numbers, which
  JavaScript adds and multiplies exactly below \<open>2 ^ 53\<close>. The quotient
  \<open>dataInt16.length / numChannels\<close> is a JavaScript number that need not be an integer
  and is \<open>Infinity\<close> or \<open>NaN\<close> when \<open>numChannels\<close> is 0, so it is a \<open>jsnum\<close>;
  so is a sample, which is \<open>NaN\<close> when it was computed from \<open>undefined\<close>. A finite
  quotient is kept as the exact rational: the double JavaScript computes differs from it by
  less than \<open>1 / numChannels\<close>, which changes neither its integer part nor the outcome
  of comparing it with an integer.
\<close>

type_synonym byte = "8 word"

datatype jsnum = Fin rat | PosInf | NaN

datatype error = InvalidCharacterError | RangeError | IndexSizeError | NotSupportedError

datatype cell = Bytes "byte list" | Floats "jsnum list"

type_synonym heap = "cell list"

record uint8array =
  buffer :: nat
  byteOffset :: nat
  u8_length :: nat

record blob =
  blob_bytes :: "byte list"
  blob_type :: string

definition arrayBuffer :: "heap \<Rightarrow> nat \<Rightarrow> byte list" where
  \<comment> \<open>the bytes of the \<open>ArrayBuffer\<close> at an address\<close>
  "arrayBuffer h a = (if a < length h then (case h ! a of Bytes bs \<Rightarrow> bs | Floats _ \<Rightarrow> []) else [])"

definition valid_u8 :: "heap \<Rightarrow> uint8array \<Rightarrow> bool" where
  \<comment> \<open>a view lies inside its buffer: the language lets no other \<open>Uint8Array\<close> be built\<close>
  "valid_u8 h v \<longleftrightarrow> buffer v < length h
     \<and> (case h ! buffer v of Bytes bs \<Rightarrow> byteOffset v + u8_length v \<le> length bs | Floats _ \<Rightarrow> False)"

definition u8_contents :: "heap \<Rightarrow> uint8array \<Rightarrow> byte list" where
  \<comment> \<open>the bytes a view shows: \<open>Array.from(v)\<close>\<close>
  "u8_contents h v = take (u8_length v) (drop (byteOffset v) (arrayBuffer h (buffer v)))"

definition u8_get :: "heap \<Rightarrow> uint8array \<Rightarrow> nat \<Rightarrow> byte option" where
  \<comment> \<open>\<open>v[i]\<close>: \<open>undefined\<close> (here \<open>None\<close>) outside the view\<close>
  "u8_get h v i = (if i < u8_length v \<and> byteOffset v + i < length (arrayBuffer h (buffer v))
                   then Some (arrayBuffer h (buffer v) ! (byteOffset v + i)) else None)"

definition newUint8Array_buffer :: "heap \<Rightarrow> nat \<Rightarrow> uint8array" where
  \<comment> \<open>\<open>new Uint8Array(b)\<close> for an \<open>ArrayBuffer\<close> \<open>b\<close>: a view on all of \<open>b\<close>\<close>
  "newUint8Array_buffer h a = \<lparr>buffer = a, byteOffset = 0, u8_length = length (arrayBuffer h a)\<rparr>"

section \<open>\<open>DataView\<close> writes\<close>

text \<open>
  \<open>createWavBlob\<close> writes through a \<open>DataView\<close> on an \<open>ArrayBuffer\<close> it has just
  allocated and that nothing else refers to, so the buffer is passed along as a byte list.
  A \<open>DataView\<close> setter throws \<open>RangeError\<close> when the bytes it writes do not lie inside
  the view: that is \<open>None\<close>. The value is converted modulo \<open>2 ^ 8\<close>, \<open>2 ^ 16\<close> or
  \<open>2 ^ 32\<close>; the last argument is \<open>littleEndian\<close>.
\<close>

definition setUint8 :: "byte list \<Rightarrow> nat \<Rightarrow> nat \<Rightarrow> byte list option" where
  "setUint8 view pos val =
     (if pos + 1 \<le> length view then Some (view[pos := of_nat val]) else None)"

definition setUint16 :: "byte list \<Rightarrow> nat \<Rightarrow> nat \<Rightarrow> bool \<Rightarrow> byte list option" where
  "setUint16 view pos val littleEndian =
     (if pos + 2 \<le> length view then
        let w = (of_nat val :: 16 word);
            b0 = (ucast w :: byte);
            b1 = (ucast (drop_bit 8 w) :: byte)
        in Some (if littleEndian then view[pos := b0, pos + 1 := b1]
                 else view[pos := b1, pos + 1 := b0])
      else None)"

definition setUint32 :: "byte list \<Rightarrow> nat \<Rightarrow> nat \<Rightarrow> bool \<Rightarrow> byte list option" where
  "setUint32 view pos val littleEndian =
     (if pos + 4 \<le> length view then
        let w = (of_nat val :: 32 word);
            b0 = (ucast w :: byte);
            b1 = (ucast (drop_bit 8 w) :: byte);
            b2 = (ucast (drop_bit 16 w) :: byte);
            b3 = (ucast (drop_bit 24 w) :: byte)
        in Some (if littleEndian then view[pos := b0, pos + 1 := b1, pos + 2 := b2, pos + 3 := b3]
                 else view[pos := b3, pos + 1 := b2, pos + 2 := b1, pos + 3 := b0])
      else None)"

text \<open>The readers a consumer of the file uses on the same fields (little-endian).\<close>

definition getUint16 :: "byte list \<Rightarrow> nat \<Rightarrow> nat" where
  "getUint16 bs pos = unat (bs ! pos) + 256 * unat (bs ! (pos + 1))"

definition getUint32 :: "byte list \<Rightarrow> nat \<Rightarrow> nat" where
  "getUint32 bs pos = unat (bs ! pos) + 256 * unat (bs ! (pos + 1))
     + 65536 * unat (bs ! (pos + 2)) + 16777216 * unat (bs ! (pos + 3))"

section \<open>\<open>createWavBlob\<close>\<close>

function writeString_loop :: "byte list \<Rightarrow> nat \<Rightarrow> string \<Rightarrow> nat \<Rightarrow> byte list option" where
  "writeString_loop view pos str i =
     (if i < length str then
        (case setUint8 view (pos + i) (of_char (str ! i)) of
           None \<Rightarrow> None
         | Some view' \<Rightarrow> writeString_loop view' pos str (i + 1))
      else Some view)"
  by pat_completeness auto
termination
  by (relation "measure (\<lambda>(view, pos, str, i). length str - i)") auto

declare writeString_loop.simps [simp del]

definition writeString :: "byte list \<Rightarrow> nat \<Rightarrow> string \<Rightarrow> byte list option" where
  "writeString view pos str = writeString_loop view pos str 0"

function writePcm_loop :: "heap \<Rightarrow> uint8array \<Rightarrow> nat \<Rightarrow> byte list \<Rightarrow> nat \<Rightarrow> byte list option" where
  \<comment> \<open>\<open>for (let i = 0; i < dataSize; i++) view.setUint8(44 + i, pcmAsUint8[i])\<close>;
      \<open>undefined\<close> would be stored as 0\<close>
  "writePcm_loop h pcmAsUint8 dataSize view i =
     (if i < dataSize then
        (case setUint8 view (44 + i) (case u8_get h pcmAsUint8 i of Some b \<Rightarrow> unat b | None \<Rightarrow> 0) of
           None \<Rightarrow> None
         | Some view' \<Rightarrow> writePcm_loop h pcmAsUint8 dataSize view' (i + 1))
      else Some view)"
  by pat_completeness auto
termination
  by (relation "measure (\<lambda>(h, p, dataSize, view, i). dataSize - i)") auto

declare writePcm_loop.simps [simp del]

definition createWavBlob :: "heap \<Rightarrow> uint8array \<Rightarrow> nat \<Rightarrow> nat \<Rightarrow> blob option" where
  "createWavBlob h pcmData sampleRate numChannels =
     (let bitsPerSample = 16;
          dataSize = u8_length pcmData;
          view0 = replicate (44 + dataSize) (0 :: byte)
      in do {
        view1 \<leftarrow> writeString view0 0 ''RIFF'';
        view2 \<leftarrow> setUint32 view1 4 (36 + dataSize) True;
        view3 \<leftarrow> writeString view2 8 ''WAVE'';
        view4 \<leftarrow> writeString view3 12 ''fmt '';
        view5 \<leftarrow> setUint32 view4 16 16 True;
        view6 \<leftarrow> setUint16 view5 20 1 True;
        view7 \<leftarrow> setUint16 view6 22 numChannels True;
        view8 \<leftarrow> setUint32 view7 24 sampleRate True;
        view9 \<leftarrow> setUint32 view8 28 (sampleRate * numChannels * (bitsPerSample div 8)) True;
        view10 \<leftarrow> setUint16 view9 32 (numChannels * (bitsPerSample div 8)) True;
        view11 \<leftarrow> setUint16 view10 34 bitsPerSample True;
        view12 \<leftarrow> writeString view11 36 ''data'';
        view13 \<leftarrow> setUint32 view12 40 dataSize True;
        view14 \<leftarrow> writePcm_loop h (newUint8Array_buffer h (buffer pcmData)) dataSize view13 0;
        Some \<lparr>blob_bytes = view14, blob_type = ''audio/wav''\<rparr>
      })"

section \<open>\<open>decodeAudioData\<close>\<close>

text \<open>
  \<open>new Int16Array(data.buffer)\<close> is a view on the whole buffer behind \<open>data\<close>, from
  byte 0, whatever the offset and length of \<open>data\<close>. The constructor throws
  \<open>RangeError\<close> when the byte length of the buffer is not a multiple of 2. Element
  \<open>k\<close> is the two's-complement value of bytes \<open>2k\<close> (low) and \<open>2k + 1\<close> (high):
  the byte order of every platform the application runs on, and the one the data model
  names. Reading outside the view gives \<open>undefined\<close>, here \<open>None\<close>.
\<close>

record int16array =
  i16_buffer :: nat
  i16_length :: nat

definition newInt16Array_buffer :: "heap \<Rightarrow> nat \<Rightarrow> error + int16array" where
  "newInt16Array_buffer h a =
     (if length (arrayBuffer h a) mod 2 \<noteq> 0 then Inl RangeError
      else Inr \<lparr>i16_buffer = a, i16_length = length (arrayBuffer h a) div 2\<rparr>)"

definition int16_at :: "byte list \<Rightarrow> nat \<Rightarrow> int" where
  "int16_at bs k = sint (word_cat (bs ! (2 * k + 1)) (bs ! (2 * k)) :: 16 word)"

definition i16_get :: "heap \<Rightarrow> int16array \<Rightarrow> nat \<Rightarrow> int option" where
  "i16_get h d k =
     (if k < i16_length d \<and> 2 * k + 1 < length (arrayBuffer h (i16_buffer d))
      then Some (int16_at (arrayBuffer h (i16_buffer d)) k) else None)"

text \<open>
  JavaScript arithmetic on the values that occur. \<open>a / b\<close> for two lengths is the exact
  quotient, \<open>Infinity\<close> for a positive length over 0 and \<open>NaN\<close> for \<open>0 / 0\<close>;
  \<open>i < x\<close> is false when \<open>x\<close> is \<open>NaN\<close>; \<open>undefined / 32768.0\<close> is \<open>NaN\<close>. For a
  16-bit \<open>v\<close> the quotient \<open>v / 32768.0\<close> has a 16-bit numerator and a power of two as
  denominator, so it is a 32-bit float and \<open>Float32Array\<close> stores it unrounded.
\<close>

definition js_div :: "nat \<Rightarrow> nat \<Rightarrow> jsnum" where
  "js_div a b = (if b = 0 then (if a = 0 then NaN else PosInf) else Fin (of_nat a / of_nat b))"

fun js_less :: "nat \<Rightarrow> jsnum \<Rightarrow> bool" where
  "js_less i (Fin q) = (of_nat i < q)"
| "js_less i PosInf = True"
| "js_less i NaN = False"

definition div_32768 :: "int option \<Rightarrow> jsnum" where
  "div_32768 x = (case x of Some v \<Rightarrow> Fin (of_int v / 32768) | None \<Rightarrow> NaN)"

text \<open>
  An \<open>AudioBuffer\<close> has a sample rate, a length in frames and one sample store per
  channel. \<open>getChannelData(c)\<close> is a \<open>Float32Array\<close> on the store of channel \<open>c\<close>
  (here its address) and throws \<open>IndexSizeError\<close> when there is no such channel. A
  write through a \<open>Float32Array\<close> outside its range does nothing.
\<close>

record audioBuffer =
  ab_sampleRate :: nat
  ab_length :: nat
  ab_channels :: "nat list"

definition getChannelData :: "audioBuffer \<Rightarrow> nat \<Rightarrow> error + nat" where
  "getChannelData buf channel =
     (if channel < length (ab_channels buf) then Inr (ab_channels buf ! channel)
      else Inl IndexSizeError)"

definition f32_set :: "heap \<Rightarrow> nat \<Rightarrow> nat \<Rightarrow> jsnum \<Rightarrow> heap" where
  "f32_set h a i v =
     (if a < length h then
        (case h ! a of
           Floats fs \<Rightarrow> if i < length fs then h[a := Floats (fs[i := v])] else h
         | Bytes _ \<Rightarrow> h)
      else h)"

definition channelData :: "heap \<Rightarrow> audioBuffer \<Rightarrow> nat \<Rightarrow> jsnum list" where
  \<comment> \<open>the samples of channel \<open>c\<close>: \<open>Array.from(buf.getChannelData(c))\<close>\<close>
  "channelData h buf c =
     (if c < length (ab_channels buf) \<and> ab_channels buf ! c < length h then
        (case h ! (ab_channels buf ! c) of Floats fs \<Rightarrow> fs | Bytes _ \<Rightarrow> [])
      else [])"

text \<open>
  The audio context is the caller's; the function uses its \<open>createBuffer\<close> only, which
  may allocate in the store and may throw.
\<close>

record audioContext =
  createBuffer :: "heap \<Rightarrow> nat \<Rightarrow> jsnum \<Rightarrow> nat \<Rightarrow> error + heap \<times> audioBuffer"

text \<open>
  The inner loop runs while \<open>i < frameCount\<close>, and \<open>frameCount\<close> may be \<open>Infinity\<close>:
  on its own the loop need not end, so it is a partial function and \<open>None\<close> is a run
  that does not return.
\<close>

partial_function (option) frame_loop ::
  "int16array \<Rightarrow> nat \<Rightarrow> nat \<Rightarrow> nat \<Rightarrow> jsnum \<Rightarrow> nat \<Rightarrow> heap \<Rightarrow> heap option" where
  "frame_loop dataInt16 chanData numChannels channel frameCount i h =
     (if js_less i frameCount then
        frame_loop dataInt16 chanData numChannels channel frameCount (i + 1)
          (f32_set h chanData i (div_32768 (i16_get h dataInt16 (i * numChannels + channel))))
      else Some h)"

function channel_loop ::
  "int16array \<Rightarrow> audioBuffer \<Rightarrow> nat \<Rightarrow> jsnum \<Rightarrow> nat \<Rightarrow> heap \<Rightarrow> (error + heap) option" where
  "channel_loop dataInt16 buf numChannels frameCount channel h =
     (if channel < numChannels then
        (case getChannelData buf channel of
           Inl e \<Rightarrow> Some (Inl e)
         | Inr chanData \<Rightarrow>
             (case frame_loop dataInt16 chanData numChannels channel frameCount 0 h of
                None \<Rightarrow> None
              | Some h' \<Rightarrow> channel_loop dataInt16 buf numChannels frameCount (channel + 1) h'))
      else Some (Inr h))"
  by pat_completeness auto
termination
  by (relation "measure (\<lambda>(d, buf, numChannels, fc, channel, h). numChannels - channel)") auto

declare channel_loop.simps [simp del]

definition decodeAudioData ::
  "heap \<Rightarrow> uint8array \<Rightarrow> audioContext \<Rightarrow> nat \<Rightarrow> nat \<Rightarrow> (error + heap \<times> audioBuffer) option" where
  "decodeAudioData h data ctx sampleRate numChannels =
     (case newInt16Array_buffer h (buffer data) of
        Inl e \<Rightarrow> Some (Inl e)
      | Inr dataInt16 \<Rightarrow>
          let frameCount = js_div (i16_length dataInt16) numChannels in
          (case createBuffer ctx h numChannels frameCount sampleRate of
             Inl e \<Rightarrow> Some (Inl e)
           | Inr (h1, buf) \<Rightarrow>
               (case channel_loop dataInt16 buf numChannels frameCount 0 h1 of
                  None \<Rightarrow> None
                | Some (Inl e) \<Rightarrow> Some (Inl e)
                | Some (Inr h2) \<Rightarrow> Some (Inr (h2, buf)))))"

text \<open>
  What \<open>createBuffer(numberOfChannels, length, sampleRate)\<close> does is fixed by the Web
  Audio API, not by this repository. Its first two parameters are \<open>unsigned long\<close>: the
  binding truncates a number towards zero and reduces it modulo \<open>2 ^ 32\<close>, and takes
  \<open>NaN\<close> and \<open>Infinity\<close> to 0. A context conforms when every buffer it returns has the
  requested shape, is zero-filled and freshly allocated, and no existing cell of the store
  has changed; which requests it refuses is left to the context.
\<close>

fun to_uint32 :: "jsnum \<Rightarrow> nat" where
  "to_uint32 (Fin q) = nat ((if 0 \<le> q then \<lfloor>q\<rfloor> else - \<lfloor>- q\<rfloor>) mod 2 ^ 32)"
| "to_uint32 PosInf = 0"
| "to_uint32 NaN = 0"

definition fresh_buffer :: "heap \<Rightarrow> heap \<Rightarrow> audioBuffer \<Rightarrow> nat \<Rightarrow> nat \<Rightarrow> nat \<Rightarrow> bool" where
  "fresh_buffer h h' buf n len sr \<longleftrightarrow>
     ab_sampleRate buf = sr \<and> ab_length buf = len \<and> length (ab_channels buf) = n
     \<and> distinct (ab_channels buf) \<and> length h \<le> length h' \<and> take (length h) h' = h
     \<and> (\<forall>a \<in> set (ab_channels buf).
           length h \<le> a \<and> a < length h' \<and> h' ! a = Floats (replicate len (Fin 0)))"

definition conformant :: "audioContext \<Rightarrow> bool" where
  "conformant ctx \<longleftrightarrow>
     (\<forall>h n fc sr h' buf. createBuffer ctx h n fc sr = Inr (h', buf)
        \<longrightarrow> fresh_buffer h h' buf (n mod 2 ^ 32) (to_uint32 fc) sr)"

definition referenceContext :: audioContext where
  \<comment> \<open>a conforming context with the least limits the Web Audio API allows: up to 32
      channels, sample rates from 8000 to 96000, at least one frame\<close>
  "referenceContext = \<lparr>createBuffer = (\<lambda>h n fc sr.
     let n' = n mod 2 ^ 32; len = to_uint32 fc in
     if n' = 0 \<or> 32 < n' \<or> len = 0 \<or> sr < 8000 \<or> 96000 < sr then Inl NotSupportedError
     else Inr (h @ replicate n' (Floats (replicate len (Fin 0))),
               \<lparr>ab_sampleRate = sr, ab_length = len,
                ab_channels = [length h ..< length h + n']\<rparr>))\<rparr>"

section \<open>\<open>decode\<close>\<close>

text \<open>
  \<open>atob\<close> is the host's function, not code of the repository: \<open>decode\<close> takes it as
  a parameter. It returns a binary string (every character has a code below 256, which is
  what \<open>string\<close> holds) or throws. \<open>charCodeAt\<close> outside the string is \<open>NaN\<close>, here
  \<open>None\<close>, which a \<open>Uint8Array\<close> stores as 0; a write outside the array does
  nothing. \<open>new Uint8Array(len)\<close> allocates a zero-filled buffer of its own.
\<close>

definition charCodeAt :: "string \<Rightarrow> nat \<Rightarrow> nat option" where
  "charCodeAt s i = (if i < length s then Some (of_char (s ! i)) else None)"

definition newUint8Array :: "heap \<Rightarrow> nat \<Rightarrow> heap \<times> uint8array" where
  "newUint8Array h len =
     (h @ [Bytes (replicate len 0)], \<lparr>buffer = length h, byteOffset = 0, u8_length = len\<rparr>)"

definition u8_set :: "heap \<Rightarrow> uint8array \<Rightarrow> nat \<Rightarrow> nat option \<Rightarrow> heap" where
  "u8_set h v i x =
     (if i < u8_length v \<and> buffer v < length h then
        (case h ! buffer v of
           Bytes bs \<Rightarrow>
             if byteOffset v + i < length bs
             then h[buffer v := Bytes (bs[byteOffset v + i := (case x of Some k \<Rightarrow> of_nat k | None \<Rightarrow> 0)])]
             else h
         | Floats _ \<Rightarrow> h)
      else h)"

function decode_loop :: "string \<Rightarrow> nat \<Rightarrow> uint8array \<Rightarrow> nat \<Rightarrow> heap \<Rightarrow> heap" where
  "decode_loop binaryString len bytes i h =
     (if i < len then
        decode_loop binaryString len bytes (i + 1) (u8_set h bytes i (charCodeAt binaryString i))
      else h)"
  by pat_completeness auto
termination
  by (relation "measure (\<lambda>(s, len, bytes, i, h). len - i)") auto

declare decode_loop.simps [simp del]

definition decode :: "(string \<Rightarrow> error + string) \<Rightarrow> heap \<Rightarrow> string \<Rightarrow> error + heap \<times> uint8array" where
  "decode atob h base64 =
     (case atob base64 of
        Inl e \<Rightarrow> Inl e
      | Inr binaryString \<Rightarrow>
          let len = length binaryString;
              (h1, bytes) = newUint8Array h len
          in Inr (decode_loop binaryString len bytes 0 h1, bytes))"

section \<open>Base64: a reference encoder and the host's decoder\<close>

text \<open>
  The reference encoder is that of RFC 4648, section 4: three bytes become four characters
  of the alphabet, and a last group of one or two bytes is padded with \<open>=\<close>.
  \<open>forgiving_base64_decode\<close> is the algorithm the HTML standard prescribes for
  \<open>atob\<close>: strip ASCII whitespace; if the length is a multiple of 4, remove one or two
  trailing \<open>=\<close>; fail if the length is then 1 modulo 4 or a character is outside the
  alphabet; otherwise turn each group of four characters into three bytes, and a last
  group of two or three characters into one or two bytes. Failure is the
  \<open>InvalidCharacterError\<close> that \<open>atob\<close> throws.
\<close>

definition b64_alphabet :: string where
  "b64_alphabet = ''ABCDEFGHIJKLMNOPQRSTUVWXYZabcdefghijklmnopqrstuvwxyz0123456789+/''"

definition b64_char :: "nat \<Rightarrow> char" where
  "b64_char i = b64_alphabet ! i"

fun index_of :: "'a \<Rightarrow> 'a list \<Rightarrow> nat option" where
  "index_of x [] = None"
| "index_of x (y # ys) = (if x = y then Some 0 else map_option Suc (index_of x ys))"

definition b64_index :: "char \<Rightarrow> nat option" where
  "b64_index c = index_of c b64_alphabet"

fun sextets :: "byte list \<Rightarrow> nat list" where
  "sextets (a # b # c # rest) =
     (let n = unat a * 65536 + unat b * 256 + unat c
      in [n div 262144, n div 4096 mod 64, n div 64 mod 64, n mod 64] @ sextets rest)"
| "sextets [a, b] =
     (let n = (unat a * 256 + unat b) * 4 in [n div 4096, n div 64 mod 64, n mod 64])"
| "sextets [a] = (let n = unat a * 16 in [n div 64, n mod 64])"
| "sextets [] = []"

definition base64Encode :: "byte list \<Rightarrow> string" where
  "base64Encode X =
     map b64_char (sextets X) @ replicate ((3 - length X mod 3) mod 3) (CHR ''='')"

definition ascii_whitespace :: "char \<Rightarrow> bool" where
  "ascii_whitespace c \<longleftrightarrow> (of_char c :: nat) \<in> {9, 10, 12, 13, 32}"

fun b64_groups :: "nat list \<Rightarrow> nat list" where
  "b64_groups (a # b # c # d # rest) =
     (let n = ((a * 64 + b) * 64 + c) * 64 + d
      in [n div 65536, n div 256 mod 256, n mod 256] @ b64_groups rest)"
| "b64_groups [a, b, c] = (let n = ((a * 64 + b) * 64 + c) div 4 in [n div 256, n mod 256])"
| "b64_groups [a, b] = [(a * 64 + b) div 16]"
| "b64_groups [a] = []"
| "b64_groups [] = []"

definition strip_padding :: "string \<Rightarrow> string" where
  "strip_padding s =
     (if length s mod 4 = 0 then
        (if 2 \<le> length s \<and> drop (length s - 2) s = ''=='' then take (length s - 2) s
         else if 1 \<le> length s \<and> drop (length s - 1) s = ''='' then take (length s - 1) s
         else s)
      else s)"

definition forgiving_base64_decode :: "string \<Rightarrow> error + string" where
  "forgiving_base64_decode s =
     (let d = strip_padding (filter (\<lambda>c. \<not> ascii_whitespace c) s) in
      if length d mod 4 = 1 then Inl InvalidCharacterError
      else if list_ex (\<lambda>c. b64_index c = None) d then Inl InvalidCharacterError
      else Inr (map char_of (b64_groups (List.map_filter b64_index d))))"

section \<open>Auxiliary definitions for the proofs\<close>

text \<open>
  \<open>patch xs pos ys\<close> overwrites \<open>xs\<close> from position \<open>pos\<close> with \<open>ys\<close>;
  \<open>partial_view A m\<close> is a buffer whose first bytes \<open>A\<close> are written and whose last
  \<open>m\<close> bytes are still zero. \<open>le16\<close> and \<open>le32\<close> are the little-endian bytes of a
  number, \<open>wav_header\<close> the 44 bytes of the header table of the specification, and
  \<open>pcm_region\<close> the bytes the copy loop reads.
\<close>

definition patch :: "'a list \<Rightarrow> nat \<Rightarrow> 'a list \<Rightarrow> 'a list" where
  "patch xs pos ys = take pos xs @ ys @ drop (pos + length ys) xs"

definition partial_view :: "byte list \<Rightarrow> nat \<Rightarrow> byte list" where
  "partial_view A m = A @ replicate m 0"

definition le16 :: "nat \<Rightarrow> byte list" where
  "le16 v = [of_nat v, of_nat (v div 256)]"

definition le32 :: "nat \<Rightarrow> byte list" where
  "le32 v = [of_nat v, of_nat (v div 256), of_nat (v div 65536), of_nat (v div 16777216)]"

definition wav_header :: "nat \<Rightarrow> nat \<Rightarrow> nat \<Rightarrow> byte list" where
  "wav_header dataSize sampleRate numChannels =
     map of_char ''RIFF'' @ le32 (36 + dataSize) @ map of_char ''WAVE''
     @ map of_char ''fmt '' @ le32 16 @ le16 1 @ le16 numChannels @ le32 sampleRate
     @ le32 (sampleRate * numChannels * 2) @ le16 (numChannels * 2) @ le16 16
     @ map of_char ''data'' @ le32 dataSize"

definition pcm_region :: "heap \<Rightarrow> uint8array \<Rightarrow> nat \<Rightarrow> nat \<Rightarrow> byte list" where
  "pcm_region h p i n = map (\<lambda>k. case u8_get h p k of Some b \<Rightarrow> b | None \<Rightarrow> 0) [i..<n]"

text \<open>
  \<open>sample_of\<close> is the value the inner loop of \<open>decodeAudioData\<close> stores at frame
  \<open>i\<close> of a channel, and \<open>chan_fill f m fs\<close> a channel store \<open>fs\<close> after the frames
  below \<open>m\<close> have been written with \<open>f\<close>.
\<close>

definition sample_of :: "heap \<Rightarrow> int16array \<Rightarrow> nat \<Rightarrow> nat \<Rightarrow> nat \<Rightarrow> jsnum" where
  "sample_of h d numChannels channel i = div_32768 (i16_get h d (i * numChannels + channel))"

definition chan_fill :: "(nat \<Rightarrow> jsnum) \<Rightarrow> nat \<Rightarrow> jsnum list \<Rightarrow> jsnum list" where
  "chan_fill f m fs = map (\<lambda>j. if j < m then f j else fs ! j) [0..<length fs]"

section \<open>The header and the payload written by \<open>createWavBlob\<close>\<close>

lemma length_patch: "pos + length ys \<le> length xs \<Longrightarrow> length (patch xs pos ys) = length xs"
  by (simp add: patch_def)

lemma patch_append: "pos + length ys \<le> length xs \<Longrightarrow> patch (xs @ zs) pos ys = patch xs pos ys @ zs"
  by (simp add: patch_def)

lemma upd_as_patch: "pos < length xs \<Longrightarrow> xs[pos := v] = patch xs pos [v]"
  by (simp add: patch_def upd_conv_take_nth_drop)

lemma patch_patch: "pos + length ys + length zs \<le> length xs \<Longrightarrow>
   patch (patch xs pos ys) (pos + length ys) zs = patch xs pos (ys @ zs)"
  by (simp add: patch_def ac_simps)

lemma setUint8_patch: "pos < length view \<Longrightarrow> setUint8 view pos v = Some (patch view pos [of_nat v])"
  by (simp add: setUint8_def upd_as_patch)

lemma writeString_loop_patch:
  "pos + length str \<le> length view \<Longrightarrow> i \<le> length str \<Longrightarrow>
   writeString_loop view pos str i = Some (patch view (pos + i) (map of_char (drop i str)))"
proof (induction view pos str i rule: writeString_loop.induct)
  case (1 view pos str i)
  show ?case
  proof (cases "i < length str")
    case True
    have a: "setUint8 view (pos + i) (of_char (str ! i)) = Some (patch view (pos + i) [of_char (str ! i)])"
      using True 1(2) by (simp add: setUint8_patch of_nat_of_char)
    have b: "writeString_loop (patch view (pos + i) [of_char (str ! i)]) pos str (i + 1)
        = Some (patch (patch view (pos + i) [of_char (str ! i)]) (pos + (i + 1)) (map of_char (drop (i + 1) str)))"
      using True 1(2) by (intro 1(1)[OF True a]) (simp_all add: length_patch)
    have c: "drop i str = str ! i # drop (i + 1) str"
      using True by (simp add: Cons_nth_drop_Suc)
    have d: "patch (patch view (pos + i) [of_char (str ! i)]) (pos + (i + 1)) (map of_char (drop (i + 1) str))
       = patch view (pos + i) ([of_char (str ! i)] @ map of_char (drop (i + 1) str))"
      using patch_patch[of "pos + i" "[of_char (str ! i)]" "map of_char (drop (i + 1) str)" view] True 1(2)
      by (simp add: add.assoc)
    have "writeString_loop view pos str i
        = writeString_loop (patch view (pos + i) [of_char (str ! i)]) pos str (i + 1)"
      by (subst writeString_loop.simps) (simp only: True a if_True option.case)
    also note b
    also note d
    finally show ?thesis by (simp only: c append_Cons append_Nil list.map)
  next
    case False
    with 1(3) have "i = length str" by simp
    then show ?thesis by (subst writeString_loop.simps) (simp add: patch_def)
  qed
qed

lemma writeString_patch:
  "pos + length str \<le> length view \<Longrightarrow> writeString view pos str = Some (patch view pos (map of_char str))"
  using writeString_loop_patch[of pos str view 0] by (simp add: writeString_def)

lemma ucast_of_nat_8_16: "(ucast (of_nat v :: 16 word) :: byte) = of_nat v"
  by (rule bit_word_eqI) (auto simp add: bit_simps)
lemma ucast_drop_8_16: "(ucast (drop_bit 8 (of_nat v :: 16 word)) :: byte) = of_nat (v div 256)"
  by (rule bit_word_eqI) (auto simp add: bit_simps simp flip: drop_bit_eq_div[of 8 v, simplified])
lemma ucast_of_nat_8_32: "(ucast (of_nat v :: 32 word) :: byte) = of_nat v"
  by (rule bit_word_eqI) (auto simp add: bit_simps)
lemma ucast_drop_8_32: "(ucast (drop_bit 8 (of_nat v :: 32 word)) :: byte) = of_nat (v div 256)"
  by (rule bit_word_eqI) (auto simp add: bit_simps simp flip: drop_bit_eq_div[of 8 v, simplified])
lemma ucast_drop_16_32: "(ucast (drop_bit 16 (of_nat v :: 32 word)) :: byte) = of_nat (v div 65536)"
  by (rule bit_word_eqI) (auto simp add: bit_simps simp flip: drop_bit_eq_div[of 16 v, simplified])
lemma ucast_drop_24_32: "(ucast (drop_bit 24 (of_nat v :: 32 word)) :: byte) = of_nat (v div 16777216)"
  by (rule bit_word_eqI) (auto simp add: bit_simps simp flip: drop_bit_eq_div[of 24 v, simplified])

lemma upd2_patch: "pos + 2 \<le> length xs \<Longrightarrow> xs[pos := a, pos + 1 := b] = patch xs pos [a, b]"
proof -
  assume len: "pos + 2 \<le> length xs"
  have 1: "xs[pos := a] = patch xs pos [a]"
    using len by (intro upd_as_patch) simp
  have 2: "(patch xs pos [a])[pos + 1 := b] = patch (patch xs pos [a]) (pos + 1) [b]"
    using len by (intro upd_as_patch) (simp add: length_patch)
  have 3: "patch (patch xs pos [a]) (pos + 1) [b] = patch xs pos ([a] @ [b])"
    using len patch_patch[of pos "[a]" "[b]" xs] by simp
  show ?thesis unfolding 1 2 3 by simp
qed

lemma upd4_patch:
  "pos + 4 \<le> length xs \<Longrightarrow>
   xs[pos := a, pos + 1 := b, pos + 2 := c, pos + 3 := d] = patch xs pos [a, b, c, d]"
proof -
  assume len: "pos + 4 \<le> length xs"
  have 1: "xs[pos := a, pos + 1 := b] = patch xs pos [a, b]"
    using len by (intro upd2_patch) simp
  have 2: "(patch xs pos [a, b])[pos + 2 := c, pos + 2 + 1 := d]
      = patch (patch xs pos [a, b]) (pos + 2) [c, d]"
    using len by (intro upd2_patch) (simp add: length_patch)
  have 3: "patch (patch xs pos [a, b]) (pos + 2) [c, d] = patch xs pos ([a, b] @ [c, d])"
    using len patch_patch[of pos "[a, b]" "[c, d]" xs] by simp
  have 4: "pos + 3 = pos + 2 + 1" by simp
  show ?thesis unfolding 1 4 2 3 by simp
qed

lemma setUint16_patch:
  "pos + 2 \<le> length view \<Longrightarrow> setUint16 view pos v True = Some (patch view pos (le16 v))"
  by (simp add: setUint16_def le16_def Let_def ucast_of_nat_8_16 ucast_drop_8_16
      upd2_patch[simplified] del: list_update.simps)

lemma setUint32_patch:
  "pos + 4 \<le> length view \<Longrightarrow> setUint32 view pos v True = Some (patch view pos (le32 v))"
  unfolding setUint32_def le32_def Let_def ucast_of_nat_8_32 ucast_drop_8_32
      ucast_drop_16_32 ucast_drop_24_32 by (simp only: upd4_patch if_True)

lemma writePcm_loop_patch:
  "44 + n \<le> length view \<Longrightarrow> i \<le> n \<Longrightarrow>
   writePcm_loop h p n view i = Some (patch view (44 + i) (pcm_region h p i n))"
proof (induction h p n view i rule: writePcm_loop.induct)
  case (1 h p n view i)
  show ?case
  proof (cases "i < n")
    case True
    define b where "b = (case u8_get h p i of Some b \<Rightarrow> b | None \<Rightarrow> 0)"
    have a: "setUint8 view (44 + i) (case u8_get h p i of Some b \<Rightarrow> unat b | None \<Rightarrow> 0)
        = Some (patch view (44 + i) [b])"
      using True 1(2) by (simp add: setUint8_patch b_def split: option.split)
    have r: "writePcm_loop h p n (patch view (44 + i) [b]) (i + 1)
        = Some (patch (patch view (44 + i) [b]) (44 + (i + 1)) (pcm_region h p (i + 1) n))"
      using True 1(2) by (intro 1(1)[OF True a]) (simp_all add: length_patch)
    have c: "pcm_region h p i n = [b] @ pcm_region h p (i + 1) n"
      using True by (simp add: pcm_region_def b_def upt_conv_Cons)
    have d: "patch (patch view (44 + i) [b]) (44 + (i + 1)) (pcm_region h p (i + 1) n)
       = patch view (44 + i) ([b] @ pcm_region h p (i + 1) n)"
      using patch_patch[of "44 + i" "[b]" "pcm_region h p (i + 1) n" view] True 1(2)
      by (simp add: add.assoc pcm_region_def)
    have "writePcm_loop h p n view i = writePcm_loop h p n (patch view (44 + i) [b]) (i + 1)"
      by (subst writePcm_loop.simps) (simp only: True a if_True option.case)
    also note r
    also note d
    finally show ?thesis by (simp only: c)
  next
    case False
    with 1(3) have "i = n" by simp
    then show ?thesis by (subst writePcm_loop.simps) (simp add: patch_def pcm_region_def)
  qed
qed

lemma length_le16: "length (le16 v) = 2" by (simp add: le16_def)
lemma length_le32: "length (le32 v) = 4" by (simp add: le32_def)

lemma patch_partial_view:
  "length A = pos \<Longrightarrow> length bs \<le> m \<Longrightarrow>
   patch (partial_view A m) pos bs = partial_view (A @ bs) (m - length bs)"
  by (simp add: patch_def partial_view_def)

lemma length_partial_view: "length (partial_view A m) = length A + m"
  by (simp add: partial_view_def)

lemma writeString_pv:
  "length A = pos \<Longrightarrow> length str \<le> m \<Longrightarrow>
   writeString (partial_view A m) pos str = Some (partial_view (A @ map of_char str) (m - length str))"
  by (simp add: writeString_patch patch_partial_view length_partial_view)

lemma setUint16_pv:
  "length A = pos \<Longrightarrow> 2 \<le> m \<Longrightarrow>
   setUint16 (partial_view A m) pos v True = Some (partial_view (A @ le16 v) (m - 2))"
  by (simp add: setUint16_patch patch_partial_view length_partial_view length_le16)

lemma setUint32_pv:
  "length A = pos \<Longrightarrow> 4 \<le> m \<Longrightarrow>
   setUint32 (partial_view A m) pos v True = Some (partial_view (A @ le32 v) (m - 4))"
  by (simp add: setUint32_patch patch_partial_view length_partial_view length_le32)

lemma writePcm_loop_pv:
  "length A = 44 \<Longrightarrow>
   writePcm_loop h p n (partial_view A n) 0 = Some (A @ pcm_region h p 0 n)"
  using patch_partial_view[of A 44 "pcm_region h p 0 n" n]
  by (simp add: writePcm_loop_patch length_partial_view pcm_region_def) (simp add: partial_view_def)


lemma createWavBlob_eq:
  "createWavBlob h pcmData sampleRate numChannels =
     Some \<lparr>blob_bytes = wav_header (u8_length pcmData) sampleRate numChannels
              @ pcm_region h (newUint8Array_buffer h (buffer pcmData)) 0 (u8_length pcmData),
           blob_type = ''audio/wav''\<rparr>"
proof -
  define n where "n = u8_length pcmData"
  have z: "replicate (44 + n) (0::byte) = partial_view [] (44 + n)"
    by (simp add: partial_view_def)
  show ?thesis
    unfolding createWavBlob_def Let_def n_def[symmetric] z
    by (simp add: writeString_pv setUint32_pv setUint16_pv writePcm_loop_pv
        length_le16 length_le32 wav_header_def)
qed

lemma le16_value: "(v::nat) mod 256 + 256 * (v div 256 mod 256) = v mod 65536"
proof -
  have "v mod 65536 = v mod (256 * 256)" by simp
  also have "\<dots> = v mod 256 + 256 * (v div 256 mod 256)" by (simp only: mod_mult2_eq add.commute)
  finally show ?thesis by simp
qed
lemma le32_value:
  "(v::nat) mod 256 + 256 * (v div 256 mod 256) + 65536 * (v div 65536 mod 256)
     + 16777216 * (v div 16777216 mod 256) = v mod 4294967296"
proof -
  have a: "v mod 4294967296 = v mod (65536 * 65536)" by simp
  have b: "v mod (65536 * 65536) = v mod 65536 + 65536 * (v div 65536 mod 65536)"
    by (simp only: mod_mult2_eq add.commute)
  have c: "v div 65536 div 256 = v div 16777216" by (simp add: div_mult2_eq[symmetric])
  show ?thesis
    unfolding a b le16_value[symmetric, of v] le16_value[symmetric, of "v div 65536"] c
    by simp
qed

lemma unat_byte_of_nat: "unat (of_nat v :: byte) = v mod 256"
  by (simp add: unat_of_nat)

lemma getUint16_le16: "length A = pos \<Longrightarrow> getUint16 (A @ le16 v @ B) pos = v mod 65536"
  by (simp add: getUint16_def le16_def nth_append unat_byte_of_nat le16_value)

lemma getUint32_le32: "length A = pos \<Longrightarrow> getUint32 (A @ le32 v @ B) pos = v mod 4294967296"
  by (simp add: getUint32_def le32_def nth_append unat_byte_of_nat le32_value)

lemma length_wav_header: "length (wav_header n sr ch) = 44"
  by (simp add: wav_header_def length_le16 length_le32)

lemma length_pcm_region: "length (pcm_region h p i n) = n - i"
  by (simp add: pcm_region_def)

lemma pcm_region_whole:
  assumes "n \<le> length (arrayBuffer h a)"
  shows "pcm_region h (newUint8Array_buffer h a) 0 n = take n (arrayBuffer h a)"
proof (rule nth_equalityI)
  show "length (pcm_region h (newUint8Array_buffer h a) 0 n) = length (take n (arrayBuffer h a))"
    using assms by (simp add: length_pcm_region)
next
  fix k assume "k < length (pcm_region h (newUint8Array_buffer h a) 0 n)"
  then have k: "k < n" by (simp add: length_pcm_region)
  with assms have "u8_get h (newUint8Array_buffer h a) k = Some (arrayBuffer h a ! k)"
    by (simp add: u8_get_def newUint8Array_buffer_def)
  with k show "pcm_region h (newUint8Array_buffer h a) 0 n ! k = take n (arrayBuffer h a) ! k"
    by (simp add: pcm_region_def)
qed

lemma valid_u8_length: "valid_u8 h p \<Longrightarrow> byteOffset p + u8_length p \<le> length (arrayBuffer h (buffer p))"
  by (auto simp add: valid_u8_def arrayBuffer_def split: cell.splits)

lemma wav_header_fields:
  fixes n sr ch :: nat and rest :: "byte list"
  defines "bs \<equiv> wav_header n sr ch @ rest"
  shows "take 4 bs = map of_char ''RIFF''"
    and "getUint32 bs 4 = (36 + n) mod 2 ^ 32"
    and "take 4 (drop 8 bs) = map of_char ''WAVE''"
    and "take 4 (drop 12 bs) = map of_char ''fmt ''"
    and "getUint32 bs 16 = 16"
    and "getUint16 bs 20 = 1"
    and "getUint16 bs 22 = ch mod 2 ^ 16"
    and "getUint32 bs 24 = sr mod 2 ^ 32"
    and "getUint32 bs 28 = (sr * ch * 2) mod 2 ^ 32"
    and "getUint16 bs 32 = (ch * 2) mod 2 ^ 16"
    and "getUint16 bs 34 = 16"
    and "take 4 (drop 36 bs) = map of_char ''data''"
    and "getUint32 bs 40 = n mod 2 ^ 32"
proof -
  define r1 where "r1 = le32 n @ rest"
  define r2 where "r2 = map of_char ''data'' @ r1"
  define r3 where "r3 = le16 16 @ r2"
  define r4 where "r4 = le16 (ch * 2) @ r3"
  define r5 where "r5 = le32 (sr * ch * 2) @ r4"
  define r6 where "r6 = le32 sr @ r5"
  define r7 where "r7 = le16 ch @ r6"
  define r8 where "r8 = le16 1 @ r7"
  define r9 where "r9 = le32 16 @ r8"
  define r10 where "r10 = map of_char ''fmt '' @ r9"
  define r11 where "r11 = map of_char ''WAVE'' @ r10"
  define r12 where "r12 = le32 (36 + n) @ r11"
  have bs: "bs = map of_char ''RIFF'' @ r12"
    by (simp add: bs_def wav_header_def r1_def r2_def r3_def r4_def r5_def r6_def r7_def r8_def
        r9_def r10_def r11_def r12_def)
  have d4: "drop 4 bs = r12" by (simp add: bs)
  have d8: "drop 8 bs = r11"
    using arg_cong[OF d4, of "drop 4"] by (simp add: r12_def length_le32)
  have d12: "drop 12 bs = r10"
    using arg_cong[OF d8, of "drop 4"] by (simp add: r11_def)
  have d16: "drop 16 bs = r9"
    using arg_cong[OF d12, of "drop 4"] by (simp add: r10_def)
  have d20: "drop 20 bs = r8"
    using arg_cong[OF d16, of "drop 4"] by (simp add: r9_def length_le32)
  have d22: "drop 22 bs = r7"
    using arg_cong[OF d20, of "drop 2"] by (simp add: r8_def length_le16)
  have d24: "drop 24 bs = r6"
    using arg_cong[OF d22, of "drop 2"] by (simp add: r7_def length_le16)
  have d28: "drop 28 bs = r5"
    using arg_cong[OF d24, of "drop 4"] by (simp add: r6_def length_le32)
  have d32: "drop 32 bs = r4"
    using arg_cong[OF d28, of "drop 4"] by (simp add: r5_def length_le32)
  have d34: "drop 34 bs = r3"
    using arg_cong[OF d32, of "drop 2"] by (simp add: r4_def length_le16)
  have d36: "drop 36 bs = r2"
    using arg_cong[OF d34, of "drop 2"] by (simp add: r3_def length_le16)
  have d40: "drop 40 bs = r1"
    using arg_cong[OF d36, of "drop 4"] by (simp add: r2_def)
  have len: "44 \<le> length bs" by (simp add: bs_def length_wav_header)
  have g32: "getUint32 bs k = getUint32 (drop k bs) 0" if "k + 4 \<le> length bs" for k
    using that by (simp add: getUint32_def)
  have g16: "getUint16 bs k = getUint16 (drop k bs) 0" if "k + 2 \<le> length bs" for k
    using that by (simp add: getUint16_def)
  have v32: "getUint32 (le32 v @ B) 0 = v mod 2 ^ 32" for v B
    using getUint32_le32[of "[]" 0 v B] by simp
  have v16: "getUint16 (le16 v @ B) 0 = v mod 2 ^ 16" for v B
    using getUint16_le16[of "[]" 0 v B] by simp
  show "take 4 bs = map of_char ''RIFF''" by (simp add: bs)
  show "getUint32 bs 4 = (36 + n) mod 2 ^ 32" using len by (simp add: g32 d4 r12_def v32)
  show "take 4 (drop 8 bs) = map of_char ''WAVE''" by (simp add: d8 r11_def)
  show "take 4 (drop 12 bs) = map of_char ''fmt ''" by (simp add: d12 r10_def)
  show "getUint32 bs 16 = 16" using len by (simp add: g32 d16 r9_def v32)
  show "getUint16 bs 20 = 1" using len by (simp add: g16 d20 r8_def v16)
  show "getUint16 bs 22 = ch mod 2 ^ 16" using len by (simp add: g16 d22 r7_def v16)
  show "getUint32 bs 24 = sr mod 2 ^ 32" using len by (simp add: g32 d24 r6_def v32)
  show "getUint32 bs 28 = (sr * ch * 2) mod 2 ^ 32" using len by (simp add: g32 d28 r5_def v32)
  show "getUint16 bs 32 = (ch * 2) mod 2 ^ 16" using len by (simp add: g16 d32 r4_def v16)
  show "getUint16 bs 34 = 16" using len by (simp add: g16 d34 r3_def v16)
  show "take 4 (drop 36 bs) = map of_char ''data''" by (simp add: d36 r2_def)
  show "getUint32 bs 40 = n mod 2 ^ 32" using len by (simp add: g32 d40 r1_def v32)
qed

lemma drop_40_wav_header: "drop 40 (wav_header n sr ch @ rest) = le32 n @ rest"
  by (simp add: wav_header_def length_le16 length_le32)

section \<open>Claims about \<open>createWavBlob\<close>\<close>

text \<open>
  Claim C1, at an input where the code departs from it. The claim: for every byte buffer
  \<open>B\<close>, \<open>createWavBlob(B, sr, ch)\<close> has length \<open>44 + len(B)\<close> and its bytes from offset
  44 on are \<open>B\<close>. Take the four-byte buffer 1, 2, 3, 4 and the view \<open>B\<close> on its last two
  bytes (\<open>new Uint8Array(buf, 2, 2)\<close>), which shows 3, 4. The blob has 46 bytes, but
  the bytes from offset 44 on are 1, 2: the copy loop reads \<open>new Uint8Array(pcmData.buffer)\<close>,
  the buffer from its first byte, while \<open>dataSize\<close> is the length of the view.
\<close>

theorem createWavBlob_offset_view:
  "valid_u8 [Bytes [1, 2, 3, 4]] \<lparr>buffer = 0, byteOffset = 2, u8_length = 2\<rparr>
   \<and> u8_contents [Bytes [1, 2, 3, 4]] \<lparr>buffer = 0, byteOffset = 2, u8_length = 2\<rparr> = [3, 4]
   \<and> map_option (length \<circ> blob_bytes)
         (createWavBlob [Bytes [1, 2, 3, 4]] \<lparr>buffer = 0, byteOffset = 2, u8_length = 2\<rparr> 24000 1)
       = Some 46
   \<and> map_option (drop 44 \<circ> blob_bytes)
         (createWavBlob [Bytes [1, 2, 3, 4]] \<lparr>buffer = 0, byteOffset = 2, u8_length = 2\<rparr> 24000 1)
       = Some [1, 2]"
  by (simp add: createWavBlob_eq length_wav_header length_pcm_region pcm_region_whole
      valid_u8_def u8_contents_def arrayBuffer_def)

text \<open>
  Claim C2 as stated fails where a value does not fit its field: with 65536 channels the
  two bytes at offset 22 hold 0, not the channel count.
\<close>

theorem createWavBlob_header_counterexample:
  "map_option blob_bytes
     (createWavBlob [Bytes []] \<lparr>buffer = 0, byteOffset = 0, u8_length = 0\<rparr> 24000 65536)
     = Some [0x52, 0x49, 0x46, 0x46,  36, 0, 0, 0,  0x57, 0x41, 0x56, 0x45,
             0x66, 0x6D, 0x74, 0x20,  16, 0, 0, 0,  1, 0,  0, 0,
             0xC0, 0x5D, 0, 0,  0, 0, 0x80, 0xBB,  0, 0,  16, 0,
             0x64, 0x61, 0x74, 0x61,  0, 0, 0, 0]
   \<and> getUint16 [0x52, 0x49, 0x46, 0x46,  36, 0, 0, 0,  0x57, 0x41, 0x56, 0x45,
             0x66, 0x6D, 0x74, 0x20,  16, 0, 0, 0,  1, 0,  0, 0,
             0xC0, 0x5D, 0, 0,  0, 0, 0x80, 0xBB,  0, 0,  16, 0,
             0x64, 0x61, 0x74, 0x61,  0, 0, 0, 0] 22 = 0
   \<and> (0 :: nat) \<noteq> 65536"
  by (simp add: createWavBlob_eq wav_header_def le16_def le32_def pcm_region_def getUint16_def)

text \<open>
  Claim C2, amended. For every input \<open>(B, sr, ch)\<close> the blob has \<open>44 + len(B)\<close> bytes and
  starts with a 44-byte header whose integers are little-endian: \<open>RIFF\<close> at offset 0,
  \<open>36 + len(B)\<close> at 4, \<open>WAVE\<close> at 8, \<open>fmt \<close> at 12, 16 at 16, audio format 1 at 20,
  \<open>ch\<close> at 22, \<open>sr\<close> at 24, \<open>sr * ch * 2\<close> at 28, \<open>ch * 2\<close> at 32, 16 at 34,
  \<open>data\<close> at 36 and \<open>len(B)\<close> at 40, each integer reduced modulo \<open>2 ^ 16\<close> (two-byte
  fields) or \<open>2 ^ 32\<close> (four-byte fields), so it is the value itself whenever the value
  fits the field. No call throws. The product \<open>sr * ch\<close> is taken below \<open>2 ^ 53\<close>, where
  JavaScript computes it exactly.
\<close>

theorem createWavBlob_header:
  assumes "sr * ch < 2 ^ 53"
  shows "\<exists>bs. createWavBlob h pcmData sr ch = Some \<lparr>blob_bytes = bs, blob_type = ''audio/wav''\<rparr>
     \<and> length bs = 44 + u8_length pcmData
     \<and> take 4 bs = map of_char ''RIFF''
     \<and> getUint32 bs 4 = (36 + u8_length pcmData) mod 2 ^ 32
     \<and> take 4 (drop 8 bs) = map of_char ''WAVE''
     \<and> take 4 (drop 12 bs) = map of_char ''fmt ''
     \<and> getUint32 bs 16 = 16
     \<and> getUint16 bs 20 = 1
     \<and> getUint16 bs 22 = ch mod 2 ^ 16
     \<and> getUint32 bs 24 = sr mod 2 ^ 32
     \<and> getUint32 bs 28 = (sr * ch * 2) mod 2 ^ 32
     \<and> getUint16 bs 32 = (ch * 2) mod 2 ^ 16
     \<and> getUint16 bs 34 = 16
     \<and> take 4 (drop 36 bs) = map of_char ''data''
     \<and> getUint32 bs 40 = u8_length pcmData mod 2 ^ 32"
proof -
  define rest where
    "rest = pcm_region h (newUint8Array_buffer h (buffer pcmData)) 0 (u8_length pcmData)"
  define bs where "bs = wav_header (u8_length pcmData) sr ch @ rest"
  have c: "createWavBlob h pcmData sr ch = Some \<lparr>blob_bytes = bs, blob_type = ''audio/wav''\<rparr>"
    by (simp add: createWavBlob_eq bs_def rest_def)
  have l: "length bs = 44 + u8_length pcmData"
    by (simp add: bs_def rest_def length_wav_header length_pcm_region)
  note f = wav_header_fields[of "u8_length pcmData" sr ch rest, folded bs_def]
  from c l f show ?thesis by blast
qed

theorem createWavBlob_header_witness:
  "(24000 :: nat) * 65537 < 2 ^ 53
   \<and> (\<exists>bs. createWavBlob [Bytes [7, 8]] \<lparr>buffer = 0, byteOffset = 0, u8_length = 2\<rparr> 24000 65537
          = Some \<lparr>blob_bytes = bs, blob_type = ''audio/wav''\<rparr>
        \<and> length bs = 46
        \<and> getUint32 bs 4 = 38 \<and> getUint16 bs 20 = 1 \<and> getUint16 bs 22 = 1
        \<and> getUint32 bs 24 = 24000 \<and> getUint32 bs 28 = 3145776000 \<and> getUint16 bs 32 = 2
        \<and> getUint16 bs 34 = 16 \<and> getUint32 bs 40 = 2)"
proof -
  have a: "(24000 :: nat) * 65537 < 2 ^ 53" by simp
  from createWavBlob_header[OF a, of "[Bytes [7, 8]]" "\<lparr>buffer = 0, byteOffset = 0, u8_length = 2\<rparr>"] a
  show ?thesis by auto
qed

text \<open>
  Claim C8. For an empty input, \<open>createWavBlob(empty, sr, ch)\<close> is a blob of exactly 44
  bytes, the header alone, with 36 in the ChunkSize field at offset 4 and 0 in the
  dataSize field at offset 40, for every \<open>sr\<close> and \<open>ch\<close>. Every field of the header is
  as in the table of the specification (an integer reduced modulo the size of its field);
  for the byte rate at offset 28 the product \<open>sr * ch\<close> is taken below \<open>2 ^ 53\<close>, and
  then the blob is \<open>wav_header 0 sr ch\<close> byte for byte.
\<close>

theorem createWavBlob_empty:
  assumes "u8_length pcmData = 0"
  shows "\<exists>bs. createWavBlob h pcmData sr ch = Some \<lparr>blob_bytes = bs, blob_type = ''audio/wav''\<rparr>
     \<and> length bs = 44
     \<and> take 4 bs = map of_char ''RIFF''
     \<and> getUint32 bs 4 = 36
     \<and> take 4 (drop 8 bs) = map of_char ''WAVE''
     \<and> take 4 (drop 12 bs) = map of_char ''fmt ''
     \<and> getUint32 bs 16 = 16
     \<and> getUint16 bs 20 = 1
     \<and> getUint16 bs 22 = ch mod 2 ^ 16
     \<and> getUint32 bs 24 = sr mod 2 ^ 32
     \<and> (sr * ch < 2 ^ 53 \<longrightarrow>
           getUint32 bs 28 = (sr * ch * 2) mod 2 ^ 32 \<and> bs = wav_header 0 sr ch)
     \<and> getUint16 bs 32 = (ch * 2) mod 2 ^ 16
     \<and> getUint16 bs 34 = 16
     \<and> take 4 (drop 36 bs) = map of_char ''data''
     \<and> getUint32 bs 40 = 0"
proof -
  define bs where "bs = wav_header 0 sr ch @ []"
  have c: "createWavBlob h pcmData sr ch = Some \<lparr>blob_bytes = bs, blob_type = ''audio/wav''\<rparr>"
    by (simp add: createWavBlob_eq assms bs_def pcm_region_def)
  have l: "length bs = 44" by (simp add: bs_def length_wav_header)
  have w: "bs = wav_header 0 sr ch" by (simp add: bs_def)
  note f = wav_header_fields[of 0 sr ch "[]", folded bs_def]
  have f2: "getUint32 bs 4 = 36" using f(2) by simp
  have f13: "getUint32 bs 40 = 0" using f(13) by simp
  from c l w f(1) f2 f(3-12) f13 show ?thesis by blast
qed

theorem createWavBlob_empty_witness:
  "u8_length \<lparr>buffer = 0, byteOffset = 0, u8_length = 0\<rparr> = 0
   \<and> (24000 :: nat) * 1 < 2 ^ 53
   \<and> (\<exists>bs. createWavBlob [Bytes []] \<lparr>buffer = 0, byteOffset = 0, u8_length = 0\<rparr> 24000 1
           = Some \<lparr>blob_bytes = bs, blob_type = ''audio/wav''\<rparr>
        \<and> length bs = 44 \<and> getUint32 bs 4 = 36 \<and> getUint16 bs 22 = 1
        \<and> getUint32 bs 24 = 24000 \<and> getUint32 bs 28 = 48000 \<and> getUint16 bs 32 = 2
        \<and> getUint32 bs 40 = 0 \<and> bs = wav_header 0 24000 1)"
proof -
  have a: "(24000 :: nat) * 1 < 2 ^ 53" by simp
  from createWavBlob_empty[of "\<lparr>buffer = 0, byteOffset = 0, u8_length = 0\<rparr>" "[Bytes []]" 24000 1] a
  show ?thesis by auto
qed

text \<open>
  Claim C9. \<open>createWavBlob\<close> copies the payload from the start of the buffer behind
  \<open>pcmData\<close>, not from the view: the bytes from offset 44 on are the first
  \<open>pcmData.length\<close> bytes of the underlying buffer, that is, what the view would show
  with byte offset 0. For a view with byte offset 0 this is \<open>pcmData\<close> itself; for a view
  with a nonzero offset it is not the content of the view.
\<close>

theorem createWavBlob_payload_source:
  assumes "valid_u8 h pcmData"
  shows "\<exists>bs. createWavBlob h pcmData sr ch = Some \<lparr>blob_bytes = bs, blob_type = ''audio/wav''\<rparr>
     \<and> drop 44 bs = take (u8_length pcmData) (arrayBuffer h (buffer pcmData))
     \<and> drop 44 bs = u8_contents h (pcmData\<lparr>byteOffset := 0\<rparr>)"
proof -
  from valid_u8_length[OF assms]
  have "u8_length pcmData \<le> length (arrayBuffer h (buffer pcmData))" by simp
  then show ?thesis
    by (simp add: createWavBlob_eq length_wav_header pcm_region_whole u8_contents_def)
qed

theorem createWavBlob_payload_source_witness:
  "valid_u8 [Bytes [10, 20, 30, 40, 50]] \<lparr>buffer = 0, byteOffset = 3, u8_length = 2\<rparr>
   \<and> (\<exists>bs. createWavBlob [Bytes [10, 20, 30, 40, 50]] \<lparr>buffer = 0, byteOffset = 3, u8_length = 2\<rparr>
             24000 1 = Some \<lparr>blob_bytes = bs, blob_type = ''audio/wav''\<rparr>
        \<and> drop 44 bs = [10, 20])
   \<and> u8_contents [Bytes [10, 20, 30, 40, 50]] \<lparr>buffer = 0, byteOffset = 3, u8_length = 2\<rparr> = [40, 50]"
proof -
  have v: "valid_u8 [Bytes [10, 20, 30, 40, 50]] \<lparr>buffer = 0, byteOffset = 3, u8_length = 2\<rparr>"
    by (simp add: valid_u8_def)
  from createWavBlob_payload_source[OF v, of 24000 1] v show ?thesis
    by (auto simp add: arrayBuffer_def u8_contents_def)
qed

section \<open>The loops of \<open>decodeAudioData\<close>\<close>

lemma length_f32_set: "length (f32_set h a i v) = length h"
  by (simp add: f32_set_def split: cell.split)

lemma arrayBuffer_f32_set: "arrayBuffer (f32_set h a i v) b = arrayBuffer h b"
  by (cases "a = b") (auto simp add: f32_set_def arrayBuffer_def nth_list_update split: cell.split)

lemma i16_get_f32_set: "i16_get (f32_set h a i v) d k = i16_get h d k"
  by (simp add: i16_get_def arrayBuffer_f32_set)

lemma sample_of_f32_set: "sample_of (f32_set h a i v) d n c j = sample_of h d n c j"
  by (simp add: sample_of_def i16_get_f32_set)

lemma f32_set_Floats:
  "a < length h \<Longrightarrow> h ! a = Floats fs \<Longrightarrow> f32_set h a i v = h[a := Floats (fs[i := v])]"
proof (cases "i < length fs")
  case True
  assume "a < length h" "h ! a = Floats fs"
  with True show ?thesis by (simp add: f32_set_def)
next
  case False
  assume a: "a < length h" "h ! a = Floats fs"
  from False have "fs[i := v] = fs" by (simp add: list_update_beyond)
  moreover have "h[a := h ! a] = h" by simp
  ultimately show ?thesis using a False by (simp add: f32_set_def)
qed

lemma frame_loop_NaN: "frame_loop d cd n c NaN i h = Some h"
  by (subst frame_loop.simps) simp

lemma frame_loop_Fin:
  "frame_loop d cd n c (Fin q) i h
     = Some (foldl (\<lambda>h j. f32_set h cd j (sample_of h d n c j)) h [i..<nat \<lceil>q\<rceil>])"
proof (induction "nat \<lceil>q\<rceil> - i" arbitrary: i h)
  case 0
  then have "\<not> of_nat i < q" by linarith
  moreover have "[i..<nat \<lceil>q\<rceil>] = []" using 0 by simp
  ultimately show ?case by (subst frame_loop.simps) (simp only: js_less.simps if_False foldl_Nil)
next
  case (Suc k)
  then have lt: "of_nat i < q" by linarith
  have "i < nat \<lceil>q\<rceil>" using Suc(2) by simp
  then have u: "[i..<nat \<lceil>q\<rceil>] = i # [Suc i..<nat \<lceil>q\<rceil>]" by (simp add: upt_conv_Cons)
  have k: "k = nat \<lceil>q\<rceil> - Suc i" using Suc(2) by simp
  show ?case
    by (subst frame_loop.simps) (simp add: lt Suc(1)[OF k] u sample_of_def)
qed


lemma length_chan_fill: "length (chan_fill f m fs) = length fs"
  by (simp add: chan_fill_def)

lemma chan_fill_0: "chan_fill f 0 fs = fs"
  by (simp add: chan_fill_def map_nth)

lemma chan_fill_Suc: "(chan_fill f m fs)[m := f m] = chan_fill f (Suc m) fs"
  by (rule nth_equalityI) (auto simp add: chan_fill_def nth_list_update less_Suc_eq)

lemma arrayBuffer_update_Floats:
  "a < length h \<Longrightarrow> h ! a = Floats fs \<Longrightarrow> arrayBuffer (h[a := Floats fs']) b = arrayBuffer h b"
  by (cases "a = b") (auto simp add: arrayBuffer_def)

lemma frame_writes_Floats:
  assumes "cd < length h" "h ! cd = Floats fs"
  shows "foldl (\<lambda>h j. f32_set h cd j (sample_of h d n c j)) h [0..<m]
           = h[cd := Floats (chan_fill (sample_of h d n c) m fs)]"
proof (induction m)
  case 0
  show ?case using assms by (simp add: chan_fill_0) (metis list_update_id)
next
  case (Suc m)
  let ?h = "h[cd := Floats (chan_fill (sample_of h d n c) m fs)]"
  have s: "sample_of ?h d n c m = sample_of h d n c m"
    using assms by (simp add: sample_of_def i16_get_def arrayBuffer_update_Floats)
  have "f32_set ?h cd m (sample_of h d n c m)
      = ?h[cd := Floats ((chan_fill (sample_of h d n c) m fs)[m := sample_of h d n c m])]"
    using assms by (intro f32_set_Floats) simp_all
  then show ?case using Suc by (simp add: s chan_fill_Suc)
qed

lemma sample_of_cong:
  "arrayBuffer h' (i16_buffer d) = arrayBuffer h (i16_buffer d) \<Longrightarrow> sample_of h' d = sample_of h d"
  by (intro ext) (simp add: sample_of_def i16_get_def)

lemma frame_loop_Floats:
  assumes "cd < length h" "h ! cd = Floats fs"
  shows "frame_loop d cd n c (Fin q) 0 h
           = Some (h[cd := Floats (chan_fill (sample_of h d n c) (nat \<lceil>q\<rceil>) fs)])"
  by (simp add: frame_loop_Fin frame_writes_Floats[OF assms])

lemma channel_loop_Fin:
  assumes "n \<le> length (ab_channels buf)" and "distinct (ab_channels buf)"
    and "\<forall>a \<in> set (ab_channels buf). a < length h \<and> (\<exists>fs. h ! a = Floats fs)"
  shows "\<exists>h'. channel_loop d buf n (Fin q) c h = Some (Inr h') \<and> length h' = length h
      \<and> (\<forall>b. arrayBuffer h' b = arrayBuffer h b)
      \<and> (\<forall>a < length h. (\<forall>k. c \<le> k \<and> k < n \<longrightarrow> ab_channels buf ! k \<noteq> a) \<longrightarrow> h' ! a = h ! a)
      \<and> (\<forall>k fs. c \<le> k \<and> k < n \<and> h ! (ab_channels buf ! k) = Floats fs \<longrightarrow>
            h' ! (ab_channels buf ! k) = Floats (chan_fill (sample_of h d n k) (nat \<lceil>q\<rceil>) fs))"
  using assms(3)
proof (induction "n - c" arbitrary: c h)
  case 0
  then have "\<not> c < n" by simp
  then show ?case by (subst channel_loop.simps) auto
next
  case (Suc x)
  let ?chans = "ab_channels buf"
  let ?m = "nat \<lceil>q\<rceil>"
  from Suc(2) have cn: "c < n" by simp
  with assms(1) have cl: "c < length ?chans" by simp
  define a where "a = ?chans ! c"
  have ain: "a \<in> set ?chans" using cl by (simp add: a_def)
  with Suc(3) obtain fs where a: "a < length h" "h ! a = Floats fs" by blast
  define h1 where "h1 = h[a := Floats (chan_fill (sample_of h d n c) ?m fs)]"
  have g: "getChannelData buf c = Inr a" using cl by (simp add: getChannelData_def a_def)
  have f: "frame_loop d a n c (Fin q) 0 h = Some h1"
    unfolding h1_def by (rule frame_loop_Floats[OF a])
  have len1: "length h1 = length h" by (simp add: h1_def)
  have ab1: "arrayBuffer h1 b = arrayBuffer h b" for b
    unfolding h1_def by (rule arrayBuffer_update_Floats[OF a])
  have inv1: "\<forall>a' \<in> set ?chans. a' < length h1 \<and> (\<exists>fs. h1 ! a' = Floats fs)"
  proof
    fix a' assume "a' \<in> set ?chans"
    with Suc(3) obtain fs' where "a' < length h" "h ! a' = Floats fs'" by blast
    then show "a' < length h1 \<and> (\<exists>fs. h1 ! a' = Floats fs)"
      using a by (cases "a' = a") (simp_all add: h1_def)
  qed
  have x: "x = n - Suc c" using Suc(2) by simp
  from Suc(1)[OF x inv1] obtain h' where h':
    "channel_loop d buf n (Fin q) (Suc c) h1 = Some (Inr h')"
    "length h' = length h1"
    "\<forall>b. arrayBuffer h' b = arrayBuffer h1 b"
    "\<forall>a < length h1. (\<forall>k. Suc c \<le> k \<and> k < n \<longrightarrow> ?chans ! k \<noteq> a) \<longrightarrow> h' ! a = h1 ! a"
    "\<forall>k fs. Suc c \<le> k \<and> k < n \<and> h1 ! (?chans ! k) = Floats fs \<longrightarrow>
        h' ! (?chans ! k) = Floats (chan_fill (sample_of h1 d n k) ?m fs)"
    by blast
  have run: "channel_loop d buf n (Fin q) c h = Some (Inr h')"
    by (subst channel_loop.simps) (simp add: cn g f h'(1))
  have s1: "sample_of h1 d = sample_of h d" by (rule sample_of_cong) (rule ab1)
  have ne: "?chans ! k \<noteq> a" if "Suc c \<le> k" "k < n" for k
    using that assms(1,2) cl by (simp add: a_def nth_eq_iff_index_eq)
  have p1: "\<forall>b. arrayBuffer h' b = arrayBuffer h b" using h'(3) ab1 by simp
  have p2: "\<forall>a' < length h. (\<forall>k. c \<le> k \<and> k < n \<longrightarrow> ?chans ! k \<noteq> a') \<longrightarrow> h' ! a' = h ! a'"
  proof (intro allI impI)
    fix a' assume l: "a' < length h" and k: "\<forall>k. c \<le> k \<and> k < n \<longrightarrow> ?chans ! k \<noteq> a'"
    from k cn have "a' \<noteq> a" by (auto simp add: a_def)
    moreover from k have "\<forall>k. Suc c \<le> k \<and> k < n \<longrightarrow> ?chans ! k \<noteq> a'" by simp
    ultimately show "h' ! a' = h ! a'" using h'(4) l len1 by (simp add: h1_def)
  qed
  have p3: "\<forall>k fs'. c \<le> k \<and> k < n \<and> h ! (?chans ! k) = Floats fs' \<longrightarrow>
        h' ! (?chans ! k) = Floats (chan_fill (sample_of h d n k) ?m fs')"
  proof (intro allI impI)
    fix k fs' assume k: "c \<le> k \<and> k < n \<and> h ! (?chans ! k) = Floats fs'"
    show "h' ! (?chans ! k) = Floats (chan_fill (sample_of h d n k) ?m fs')"
    proof (cases "k = c")
      case True
      with k a have "fs' = fs" by (simp add: a_def)
      moreover have "h' ! a = h1 ! a" using h'(4) a(1) len1 ne by simp
      ultimately show ?thesis using True a by (simp add: h1_def a_def)
    next
      case False
      with k have sk: "Suc c \<le> k" "k < n" by simp_all
      from ne[OF sk] have "h1 ! (?chans ! k) = h ! (?chans ! k)" by (simp add: h1_def)
      with k have "h1 ! (?chans ! k) = Floats fs'" by simp
      with h'(5) sk show ?thesis by (simp add: s1)
    qed
  qed
  show ?case using run h'(2) len1 p1 p2 p3 by simp
qed

lemma frame_loop_returns: "fc \<noteq> PosInf \<Longrightarrow> \<exists>h'. frame_loop d cd n c fc i h = Some h'"
  by (cases fc) (simp_all add: frame_loop_Fin frame_loop_NaN)

lemma channel_loop_returns:
  "n = 0 \<or> fc \<noteq> PosInf \<Longrightarrow> \<exists>r. channel_loop d buf n fc c h = Some r"
proof (induction d buf n fc c h rule: channel_loop.induct)
  case (1 d buf n fc c h)
  show ?case
  proof (cases "c < n")
    case False
    then show ?thesis by (subst channel_loop.simps) simp
  next
    case True
    with 1(2) have fc: "fc \<noteq> PosInf" by simp
    show ?thesis
    proof (cases "getChannelData buf c")
      case (Inl e)
      then show ?thesis by (subst channel_loop.simps) (simp add: True)
    next
      case (Inr cd)
      from frame_loop_returns[OF fc] obtain h' where h': "frame_loop d cd n c fc 0 h = Some h'"
        by blast
      from 1(1)[OF True Inr h' 1(2)] obtain r where
        "channel_loop d buf n fc (c + 1) h' = Some r" by blast
      then show ?thesis by (subst channel_loop.simps) (simp add: True Inr h')
    qed
  qed
qed

lemma channel_loop_too_few:
  "length (ab_channels buf) < n \<Longrightarrow> c \<le> length (ab_channels buf) \<Longrightarrow> fc \<noteq> PosInf \<Longrightarrow>
   \<exists>e. channel_loop d buf n fc c h = Some (Inl e)"
proof (induction d buf n fc c h rule: channel_loop.induct)
  case (1 d buf n fc c h)
  from 1(2,3) have cn: "c < n" by simp
  show ?case
  proof (cases "getChannelData buf c")
    case (Inl e)
    then show ?thesis by (subst channel_loop.simps) (simp add: cn)
  next
    case (Inr cd)
    then have "c < length (ab_channels buf)"
      by (simp add: getChannelData_def split: if_splits)
    then have c1: "c + 1 \<le> length (ab_channels buf)" by simp
    from frame_loop_returns[OF 1(4)] obtain h' where h': "frame_loop d cd n c fc 0 h = Some h'"
      by blast
    from 1(1)[OF cn Inr h' 1(2) c1 1(4)] obtain e where
      "channel_loop d buf n fc (c + 1) h' = Some (Inl e)" by blast
    then show ?thesis by (subst channel_loop.simps) (simp add: cn Inr h')
  qed
qed

lemma decodeAudioData_returns: "\<exists>r. decodeAudioData h data ctx sampleRate numChannels = Some r"
proof (cases "newInt16Array_buffer h (buffer data)")
  case (Inl e)
  then show ?thesis by (simp add: decodeAudioData_def)
next
  case (Inr d)
  let ?fc = "js_div (i16_length d) numChannels"
  show ?thesis
  proof (cases "createBuffer ctx h numChannels ?fc sampleRate")
    case (Inl e)
    then show ?thesis by (simp add: decodeAudioData_def Inr)
  next
    case r: (Inr p)
    obtain h1 buf where p: "p = (h1, buf)" by (cases p)
    have "numChannels = 0 \<or> ?fc \<noteq> PosInf" by (simp add: js_div_def)
    from channel_loop_returns[OF this] obtain x where
      x: "channel_loop d buf numChannels ?fc 0 h1 = Some x" by blast
    show ?thesis
      by (cases x) (simp_all add: decodeAudioData_def Inr r p x)
  qed
qed

lemma chan_fill_replicate:
  "len \<le> m \<Longrightarrow> chan_fill f m (replicate len z) = map f [0..<len]"
  by (simp add: chan_fill_def)

lemma to_uint32_js_div:
  "0 < n \<Longrightarrow> to_uint32 (js_div a n) = (a div n) mod 2 ^ 32"
proof -
  assume n: "0 < n"
  have "\<lfloor>rat_of_nat a / rat_of_nat n\<rfloor> = int (a div n)"
    by (simp add: floor_divide_of_nat_eq)
  then show ?thesis using n
    by (simp add: js_div_def nat_mod_distrib zmod_int)
qed

lemma ceiling_js_div: "a div n \<le> nat \<lceil>rat_of_nat a / rat_of_nat n\<rceil>"
proof -
  have "int (a div n) = \<lfloor>rat_of_nat a / rat_of_nat n\<rfloor>"
    by (simp add: floor_divide_of_nat_eq)
  also have "\<dots> \<le> \<lceil>rat_of_nat a / rat_of_nat n\<rceil>" by (rule floor_le_ceiling)
  finally show ?thesis by simp
qed

lemma sample_of_in_range:
  assumes "i < (length bs div 2) div n" "c < n" "arrayBuffer h a = bs"
  shows "sample_of h \<lparr>i16_buffer = a, i16_length = length bs div 2\<rparr> n c i
           = Fin (of_int (int16_at bs (i * n + c)) / 32768)"
proof -
  have "Suc i \<le> (length bs div 2) div n" using assms(1) by simp
  then have "Suc i * n \<le> (length bs div 2) div n * n" by (rule mult_le_mono1)
  also have "\<dots> \<le> length bs div 2" by simp
  finally have k: "i * n + c < length bs div 2" using assms(2) by simp
  then have "2 * (i * n + c) + 1 < length bs" by simp
  with k show ?thesis using assms(3)
    by (simp add: sample_of_def i16_get_def div_32768_def)
qed

lemma i16_get_extend:
  assumes "take (length h) h1 = h" "length h \<le> length h1"
  shows "i16_get h1 \<lparr>i16_buffer = a, i16_length = length (arrayBuffer h a) div 2\<rparr> k
       = i16_get h \<lparr>i16_buffer = a, i16_length = length (arrayBuffer h a) div 2\<rparr> k"
proof (cases "a < length h")
  case True
  have "h1 ! a = take (length h) h1 ! a" using True by simp
  then have "h1 ! a = h ! a" using assms(1) by simp
  then have "arrayBuffer h1 a = arrayBuffer h a" using True assms(2) by (simp add: arrayBuffer_def)
  then show ?thesis by (simp add: i16_get_def)
next
  case False
  then have "arrayBuffer h a = []" by (simp add: arrayBuffer_def)
  then show ?thesis by (simp add: i16_get_def)
qed

lemma decodeAudioData_conformant:
  assumes conf: "conformant ctx"
    and ev: "even (length (arrayBuffer h (buffer data)))"
    and cb: "createBuffer ctx h n (js_div (length (arrayBuffer h (buffer data)) div 2) n) sr = Inr (h1, buf)"
    and n32: "n < 2 ^ 32"
  shows "\<exists>h2. decodeAudioData h data ctx sr n = Some (Inr (h2, buf))
      \<and> take (length h) h2 = h
      \<and> ab_sampleRate buf = sr \<and> length (ab_channels buf) = n
      \<and> ab_length buf = (if n = 0 then 0 else (length (arrayBuffer h (buffer data)) div 2 div n) mod 2 ^ 32)
      \<and> (\<forall>c < n. channelData h2 buf c
            = map (\<lambda>i. Fin (of_int (int16_at (arrayBuffer h (buffer data)) (i * n + c)) / 32768))
                [0..<ab_length buf])"
proof -
  define bs where "bs = arrayBuffer h (buffer data)"
  define d where "d = \<lparr>i16_buffer = buffer data, i16_length = length bs div 2\<rparr>"
  define fc where "fc = js_div (length bs div 2) n"
  let ?chans = "ab_channels buf"
  have nd: "newInt16Array_buffer h (buffer data) = Inr d"
    using ev by (simp add: newInt16Array_buffer_def d_def bs_def)
  from conf cb have fb: "fresh_buffer h h1 buf (n mod 2 ^ 32) (to_uint32 fc) sr"
    unfolding conformant_def fc_def bs_def by blast
  have nm: "n mod 2 ^ 32 = n" using n32 by simp
  from fb nm have sr: "ab_sampleRate buf = sr" and len: "ab_length buf = to_uint32 fc"
    and nch: "length ?chans = n" and dist: "distinct ?chans"
    and hh1: "length h \<le> length h1" "take (length h) h1 = h"
    and cells: "\<forall>a \<in> set ?chans. length h \<le> a \<and> a < length h1
                   \<and> h1 ! a = Floats (replicate (to_uint32 fc) (Fin 0))"
    by (simp_all add: fresh_buffer_def)
  have dec: "decodeAudioData h data ctx sr n =
      (case channel_loop d buf n fc 0 h1 of None \<Rightarrow> None | Some (Inl e) \<Rightarrow> Some (Inl e)
       | Some (Inr h2) \<Rightarrow> Some (Inr (h2, buf)))"
    using cb by (simp add: decodeAudioData_def nd fc_def d_def bs_def)
  show ?thesis
  proof (cases "n = 0")
    case True
    have "channel_loop d buf n fc 0 h1 = Some (Inr h1)"
      by (subst channel_loop.simps) (simp add: True)
    moreover have "to_uint32 fc = 0" using True by (simp add: fc_def js_div_def)
    ultimately show ?thesis using dec hh1 sr nch len True by simp
  next
    case False
    then have n0: "0 < n" by simp
    define q where "q = rat_of_nat (length bs div 2) / rat_of_nat n"
    have fcq: "fc = Fin q" using n0 by (simp add: fc_def js_div_def q_def)
    have l32: "to_uint32 fc = (length bs div 2 div n) mod 2 ^ 32"
      unfolding fc_def by (rule to_uint32_js_div[OF n0])
    have lm: "to_uint32 fc \<le> nat \<lceil>q\<rceil>"
    proof -
      have "to_uint32 fc \<le> length bs div 2 div n" unfolding l32 by simp
      also have "\<dots> \<le> nat \<lceil>q\<rceil>" unfolding q_def by (rule ceiling_js_div)
      finally show ?thesis .
    qed
    have pre: "\<forall>a \<in> set ?chans. a < length h1 \<and> (\<exists>fs. h1 ! a = Floats fs)"
      using cells by simp
    from channel_loop_Fin[of n buf h1 d q 0, OF _ dist pre] nch obtain h2 where h2:
      "channel_loop d buf n (Fin q) 0 h1 = Some (Inr h2)" "length h2 = length h1"
      "\<forall>a < length h1. (\<forall>k. 0 \<le> k \<and> k < n \<longrightarrow> ?chans ! k \<noteq> a) \<longrightarrow> h2 ! a = h1 ! a"
      "\<forall>k fs. 0 \<le> k \<and> k < n \<and> h1 ! (?chans ! k) = Floats fs \<longrightarrow>
            h2 ! (?chans ! k) = Floats (chan_fill (sample_of h1 d n k) (nat \<lceil>q\<rceil>) fs)"
      by auto
    have keep: "take (length h) h2 = h"
    proof (rule nth_equalityI)
      show "length (take (length h) h2) = length h" using h2(2) hh1 by simp
    next
      fix a assume "a < length (take (length h) h2)"
      then have a: "a < length h" by simp
      have "\<forall>k. 0 \<le> k \<and> k < n \<longrightarrow> ?chans ! k \<noteq> a"
      proof (intro allI impI)
        fix k assume "0 \<le> k \<and> k < n"
        then have "?chans ! k \<in> set ?chans" using nch by simp
        with cells have "length h \<le> ?chans ! k" by blast
        with a show "?chans ! k \<noteq> a" by simp
      qed
      with h2(3) a hh1 have "h2 ! a = h1 ! a" by simp
      moreover have "h1 ! a = take (length h) h1 ! a" using a by simp
      ultimately show "take (length h) h2 ! a = h ! a" using a hh1 by simp
    qed
    have chan: "channelData h2 buf c
            = map (\<lambda>i. Fin (of_int (int16_at bs (i * n + c)) / 32768)) [0..<ab_length buf]"
      if c: "c < n" for c
    proof -
      have mem: "?chans ! c \<in> set ?chans" using c nch by simp
      with cells have a: "?chans ! c < length h1"
        "h1 ! (?chans ! c) = Floats (replicate (to_uint32 fc) (Fin 0))" by blast+
      from h2(4) c a(2) have "h2 ! (?chans ! c)
          = Floats (chan_fill (sample_of h1 d n c) (nat \<lceil>q\<rceil>) (replicate (to_uint32 fc) (Fin 0)))"
        by simp
      then have 1: "channelData h2 buf c = map (sample_of h1 d n c) [0..<to_uint32 fc]"
        using c nch a(1) h2(2) by (simp add: channelData_def chan_fill_replicate[OF lm])
      have 2: "sample_of h1 d n c i = Fin (of_int (int16_at bs (i * n + c)) / 32768)"
        if "i < to_uint32 fc" for i
      proof -
        have "i < length bs div 2 div n" using that l32
          by (metis mod_less_eq_dividend order_less_le_trans)
        from sample_of_in_range[OF this c, of h "buffer data"]
        have "sample_of h d n c i = Fin (of_int (int16_at bs (i * n + c)) / 32768)"
          by (simp add: bs_def d_def)
        moreover have "sample_of h1 d n c i = sample_of h d n c i"
          using i16_get_extend[OF hh1(2,1), of "buffer data"]
          by (simp add: sample_of_def d_def bs_def)
        ultimately show ?thesis by simp
      qed
      show ?thesis unfolding 1 len using 2 by simp
    qed
    show ?thesis
      using dec h2(1) keep sr nch len l32 chan False by (simp add: fcq bs_def)
  qed
qed

lemma decodeAudioData_InrD:
  assumes conf: "conformant ctx"
    and res: "decodeAudioData h data ctx sr n = Some (Inr (h2, buf))"
  shows "even (length (arrayBuffer h (buffer data))) \<and> n < 2 ^ 32
      \<and> (\<exists>h1. createBuffer ctx h n (js_div (length (arrayBuffer h (buffer data)) div 2) n) sr = Inr (h1, buf))"
proof -
  define bs where "bs = arrayBuffer h (buffer data)"
  define d where "d = \<lparr>i16_buffer = buffer data, i16_length = length bs div 2\<rparr>"
  define fc where "fc = js_div (length bs div 2) n"
  have ev: "even (length bs)"
    using res by (auto simp add: decodeAudioData_def newInt16Array_buffer_def bs_def split: if_splits)
  then have nd: "newInt16Array_buffer h (buffer data) = Inr d"
    by (simp add: newInt16Array_buffer_def d_def bs_def)
  from res nd obtain h1 buf' where cb: "createBuffer ctx h n fc sr = Inr (h1, buf')"
    by (cases "createBuffer ctx h n fc sr") (auto simp add: decodeAudioData_def d_def fc_def bs_def)
  with res nd have cl: "(case channel_loop d buf' n fc 0 h1 of None \<Rightarrow> None | Some (Inl e) \<Rightarrow> Some (Inl e)
       | Some (Inr h2) \<Rightarrow> Some (Inr (h2, buf'))) = Some (Inr (h2, buf))"
    by (simp add: decodeAudioData_def d_def fc_def bs_def)
  then have b: "buf' = buf" by (auto split: option.splits sum.splits)
  have "n < 2 ^ 32"
  proof (rule ccontr)
    assume "\<not> n < 2 ^ 32"
    then have big: "2 ^ 32 \<le> n" by simp
    then have n0: "0 < n" by (simp add: order_less_le_trans[of 0 "2 ^ 32" n])
    from conf cb have "fresh_buffer h h1 buf' (n mod 2 ^ 32) (to_uint32 fc) sr"
      unfolding conformant_def by blast
    then have "length (ab_channels buf') = n mod 2 ^ 32" by (simp add: fresh_buffer_def)
    moreover have "n mod 2 ^ 32 < 2 ^ 32" by simp
    ultimately have few: "length (ab_channels buf') < n" using big by linarith
    have "fc \<noteq> PosInf" using n0 by (simp add: fc_def js_div_def)
    from channel_loop_too_few[OF few _ this, of 0 d h1] obtain e where
      "channel_loop d buf' n fc 0 h1 = Some (Inl e)" by auto
    with cl show False by simp
  qed
  with ev cb b show ?thesis by (auto simp add: bs_def fc_def)
qed

lemma conformant_referenceContext: "conformant referenceContext"
  unfolding conformant_def
proof (intro allI impI)
  fix h n fc sr h' buf
  assume "createBuffer referenceContext h n fc sr = Inr (h', buf)"
  then have h': "h' = h @ replicate (n mod 2 ^ 32) (Floats (replicate (to_uint32 fc) (Fin 0)))"
    and buf: "buf = \<lparr>ab_sampleRate = sr, ab_length = to_uint32 fc,
                ab_channels = [length h ..< length h + n mod 2 ^ 32]\<rparr>"
    by (simp_all add: referenceContext_def Let_def split: if_splits)
  show "fresh_buffer h h' buf (n mod 2 ^ 32) (to_uint32 fc) sr"
    unfolding fresh_buffer_def h' buf by (auto simp add: nth_append)
qed

lemma int16_at_range: "- 32768 \<le> int16_at bs k \<and> int16_at bs k \<le> 32767"
  using sint_ge[of "word_cat (bs ! (2 * k + 1)) (bs ! (2 * k)) :: 16 word"]
    sint_lt[of "word_cat (bs ! (2 * k + 1)) (bs ! (2 * k)) :: 16 word"]
  by (simp add: int16_at_def)

lemma replicate_2: "replicate 2 x = [x, x]"
  by (simp add: numeral_2_eq_2)

lemma createBuffer_referenceContext:
  assumes "n mod 2 ^ 32 \<noteq> 0" "n mod 2 ^ 32 \<le> 32" "to_uint32 fc \<noteq> 0" "8000 \<le> sr" "sr \<le> 96000"
  shows "createBuffer referenceContext h n fc sr
     = Inr (h @ replicate (n mod 2 ^ 32) (Floats (replicate (to_uint32 fc) (Fin 0))),
            \<lparr>ab_sampleRate = sr, ab_length = to_uint32 fc,
             ab_channels = [length h ..< length h + n mod 2 ^ 32]\<rparr>)"
  using assms by (simp add: referenceContext_def Let_def)

section \<open>Claims about \<open>decodeAudioData\<close>\<close>

text \<open>
  Claim C3. With a conforming context, every sample of the buffer \<open>decodeAudioData\<close>
  returns is exactly \<open>v / 32768\<close> for the signed 16-bit value \<open>v\<close> it read at index
  \<open>i * numChannels + channel\<close> of the input: it lies between \<open>-1\<close> and \<open>32767 / 32768\<close>,
  \<open>-32768\<close> gives exactly \<open>-1\<close> and 0 gives exactly 0.
\<close>

theorem decodeAudioData_normalisation:
  assumes "conformant ctx"
    and "decodeAudioData h data ctx sr n = Some (Inr (h2, buf))"
    and "c < n" and "i < ab_length buf"
  shows "i * n + c < length (arrayBuffer h (buffer data)) div 2
     \<and> channelData h2 buf c ! i = div_32768 (Some (int16_at (arrayBuffer h (buffer data)) (i * n + c)))
     \<and> div_32768 (Some (int16_at (arrayBuffer h (buffer data)) (i * n + c)))
         = Fin (of_int (int16_at (arrayBuffer h (buffer data)) (i * n + c)) / 32768)
     \<and> (- 1 :: rat) \<le> of_int (int16_at (arrayBuffer h (buffer data)) (i * n + c)) / 32768
     \<and> (of_int (int16_at (arrayBuffer h (buffer data)) (i * n + c)) / 32768 :: rat) \<le> 32767 / 32768
     \<and> div_32768 (Some (- 32768)) = Fin (- 1)
     \<and> div_32768 (Some 0) = Fin 0"
proof -
  define bs where "bs = arrayBuffer h (buffer data)"
  define v where "v = int16_at bs (i * n + c)"
  from decodeAudioData_InrD[OF assms(1,2)] obtain h1 where
    ev: "even (length bs)" and n32: "n < 2 ^ 32"
    and cb: "createBuffer ctx h n (js_div (length bs div 2) n) sr = Inr (h1, buf)"
    by (auto simp add: bs_def)
  from decodeAudioData_conformant[OF assms(1) ev[unfolded bs_def] cb[unfolded bs_def] n32]
  obtain h2' where r: "decodeAudioData h data ctx sr n = Some (Inr (h2', buf))"
    and len: "ab_length buf = (if n = 0 then 0 else (length bs div 2 div n) mod 2 ^ 32)"
    and ch: "\<forall>c < n. channelData h2' buf c
            = map (\<lambda>i. Fin (of_int (int16_at bs (i * n + c)) / 32768)) [0..<ab_length buf]"
    by (auto simp add: bs_def)
  from r assms(2) have h2: "h2' = h2" by simp
  from ch assms(3,4) have s: "channelData h2 buf c ! i = Fin (of_int v / 32768)"
    by (simp add: h2 v_def)
  have n0: "0 < n" using assms(3) by simp
  have "i < length bs div 2 div n mod 2 ^ 32" using assms(4) len n0 by simp
  also have "\<dots> \<le> length bs div 2 div n" by (rule mod_less_eq_dividend)
  finally have "Suc i \<le> length bs div 2 div n" by simp
  then have "Suc i * n \<le> length bs div 2 div n * n" by (rule mult_le_mono1)
  also have "\<dots> \<le> length bs div 2" by simp
  finally have k: "i * n + c < length bs div 2" using assms(3) by simp
  have b: "- 32768 \<le> v \<and> v \<le> 32767" unfolding v_def by (rule int16_at_range)
  then have "(- 1 :: rat) \<le> of_int v / 32768" "(of_int v / 32768 :: rat) \<le> 32767 / 32768"
    by simp_all
  with s k show ?thesis
    by (simp add: div_32768_def v_def bs_def)
qed

theorem decodeAudioData_normalisation_witness:
  "conformant referenceContext
   \<and> decodeAudioData [Bytes [0, 0, 0, 0x80]] \<lparr>buffer = 0, byteOffset = 0, u8_length = 4\<rparr>
         referenceContext 24000 1
       = Some (Inr ([Bytes [0, 0, 0, 0x80], Floats [Fin 0, Fin (- 1)]],
                    \<lparr>ab_sampleRate = 24000, ab_length = 2, ab_channels = [1]\<rparr>))
   \<and> (0 :: nat) < 1
   \<and> 1 < ab_length \<lparr>ab_sampleRate = 24000, ab_length = 2, ab_channels = [1]\<rparr>
   \<and> int16_at (arrayBuffer [Bytes [0, 0, 0, 0x80]] 0) 1 = - 32768
   \<and> channelData [Bytes [0, 0, 0, 0x80], Floats [Fin 0, Fin (- 1)]]
         \<lparr>ab_sampleRate = 24000, ab_length = 2, ab_channels = [1]\<rparr> 0 ! 1 = Fin (- 1)"
proof -
  let ?h = "[Bytes [0, 0, 0, 0x80]]"
  let ?d = "\<lparr>i16_buffer = 0, i16_length = 2\<rparr>"
  let ?buf = "\<lparr>ab_sampleRate = 24000, ab_length = 2, ab_channels = [Suc 0]\<rparr>"
  let ?h1 = "[Bytes [0, 0, 0, 0x80], Floats [Fin 0, Fin 0]]"
  have 1: "newInt16Array_buffer ?h 0 = Inr ?d"
    by (simp add: newInt16Array_buffer_def arrayBuffer_def)
  have 2: "js_div 2 (Suc 0) = Fin 2" by (simp add: js_div_def)
  have 3: "createBuffer referenceContext ?h (Suc 0) (Fin 2) 24000
      = Inr (?h1, ?buf)"
    by (simp add: referenceContext_def replicate_2)
  have 4: "frame_loop ?d (Suc 0) (Suc 0) 0 (Fin 2) 0 ?h1
      = Some [Bytes [0, 0, 0, 0x80], Floats [Fin 0, Fin (- 1)]]"
    by (simp add: frame_loop.simps f32_set_def div_32768_def i16_get_def arrayBuffer_def
        int16_at_def word_cat_eq)
  have 5: "channel_loop ?d ?buf (Suc 0) (Fin 2) 0 ?h1
      = Some (Inr [Bytes [0, 0, 0, 0x80], Floats [Fin 0, Fin (- 1)]])"
    by (simp add: channel_loop.simps getChannelData_def 4)
  have r: "decodeAudioData ?h \<lparr>buffer = 0, byteOffset = 0, u8_length = 4\<rparr> referenceContext 24000 1
      = Some (Inr ([Bytes [0, 0, 0, 0x80], Floats [Fin 0, Fin (- 1)]],
                   \<lparr>ab_sampleRate = 24000, ab_length = 2, ab_channels = [1]\<rparr>))"
    by (simp add: decodeAudioData_def 1 2 3 5)
  have v: "int16_at (arrayBuffer ?h 0) 1 = - 32768"
    by (simp add: arrayBuffer_def int16_at_def word_cat_eq)
  from decodeAudioData_normalisation[OF conformant_referenceContext r, of 0 1] v
  have "channelData [Bytes [0, 0, 0, 0x80], Floats [Fin 0, Fin (- 1)]]
         \<lparr>ab_sampleRate = 24000, ab_length = 2, ab_channels = [1]\<rparr> 0 ! 1 = Fin (- 1)"
    by simp
  with conformant_referenceContext r v show ?thesis by simp
qed

text \<open>
  Claim C4 as stated fails for every odd length: three bytes with one channel are
  \<open>2 * 1 * 1 + 1\<close> bytes, and the call throws \<open>RangeError\<close> (from the \<open>Int16Array\<close>
  constructor) instead of returning one frame. The input is a view on all of its buffer.
\<close>

theorem decodeAudioData_partial_frame_counterexample:
  "u8_length \<lparr>buffer = 0, byteOffset = 0, u8_length = 3\<rparr> = 2 * 1 * 1 + 1
   \<and> u8_contents [Bytes [0, 0, 0]] \<lparr>buffer = 0, byteOffset = 0, u8_length = 3\<rparr> = [0, 0, 0]
   \<and> arrayBuffer [Bytes [0, 0, 0]] (buffer \<lparr>buffer = 0, byteOffset = 0, u8_length = 3\<rparr>) = [0, 0, 0]
   \<and> decodeAudioData [Bytes [0, 0, 0]] \<lparr>buffer = 0, byteOffset = 0, u8_length = 3\<rparr>
         referenceContext 24000 1 = Some (Inl RangeError)"
  by (simp add: decodeAudioData_def newInt16Array_buffer_def arrayBuffer_def u8_contents_def)

text \<open>
  Claim C4, amended. Take an input that is a view on all of its buffer (byte offset 0,
  the length of the buffer), as \<open>decode\<close> returns, of byte length
  \<open>2 * numChannels * N + r\<close> with \<open>0 < r < 2 * numChannels\<close> (and \<open>N\<close>,
  \<open>numChannels\<close> below \<open>2 ^ 32\<close>). When \<open>r\<close> is odd, as it always is for one channel,
  \<open>decodeAudioData\<close> fails with \<open>RangeError\<close>. When \<open>r\<close> is even and the conforming
  context accepts the \<open>createBuffer\<close> call, \<open>decodeAudioData\<close> returns without error an
  audio buffer of exactly \<open>N\<close> frames, which hold the first \<open>N\<close> frames of the input;
  the trailing partial frame is dropped.
\<close>

theorem decodeAudioData_partial_frame:
  assumes "conformant ctx"
    and "byteOffset data = 0" and "u8_length data = length (arrayBuffer h (buffer data))"
    and "u8_length data = 2 * n * N + r" and "0 < r" and "r < 2 * n"
    and "n < 2 ^ 32" and "N < 2 ^ 32"
  shows "(odd r \<longrightarrow> decodeAudioData h data ctx sr n = Some (Inl RangeError))
     \<and> (even r \<longrightarrow>
          (\<forall>h1 buf. createBuffer ctx h n (js_div (u8_length data div 2) n) sr = Inr (h1, buf) \<longrightarrow>
             (\<exists>h2. decodeAudioData h data ctx sr n = Some (Inr (h2, buf))
                \<and> ab_length buf = N \<and> length (ab_channels buf) = n
                \<and> (\<forall>c < n. channelData h2 buf c
                      = map (\<lambda>i. Fin (of_int (int16_at (u8_contents h data) (i * n + c)) / 32768))
                          [0..<N]))))"
proof -
  define bs where "bs = arrayBuffer h (buffer data)"
  have lb: "length bs = 2 * n * N + r" using assms(3,4) by (simp add: bs_def)
  have uc: "u8_contents h data = bs" using assms(2,3) by (simp add: u8_contents_def bs_def)
  have ul: "u8_length data = length bs" using assms(3) by (simp add: bs_def)
  have n0: "0 < n" using assms(6) by simp
  have A: "decodeAudioData h data ctx sr n = Some (Inl RangeError)" if "odd r"
  proof -
    from that have "odd (length bs)" by (simp add: lb)
    then show ?thesis
      by (simp add: decodeAudioData_def newInt16Array_buffer_def bs_def odd_iff_mod_2_eq_one)
  qed
  have B: "\<exists>h2. decodeAudioData h data ctx sr n = Some (Inr (h2, buf))
                \<and> ab_length buf = N \<and> length (ab_channels buf) = n
                \<and> (\<forall>c < n. channelData h2 buf c
                      = map (\<lambda>i. Fin (of_int (int16_at (u8_contents h data) (i * n + c)) / 32768))
                          [0..<N])"
    if er: "even r"
      and cb: "createBuffer ctx h n (js_div (u8_length data div 2) n) sr = Inr (h1, buf)"
    for h1 buf
  proof -
    have ev: "even (length bs)" using er by (simp add: lb)
    from er obtain r' where r': "r = 2 * r'" by (auto elim: evenE)
    have "length bs div 2 = n * N + r'" by (simp add: lb r')
    moreover have "r' < n" using assms(6) by (simp add: r')
    ultimately have "length bs div 2 div n = N" using n0 by simp
    then have l: "(length bs div 2 div n) mod 2 ^ 32 = N" using assms(8) by simp
    have cb': "createBuffer ctx h n (js_div (length (arrayBuffer h (buffer data)) div 2) n) sr
        = Inr (h1, buf)"
      using cb by (simp add: ul bs_def)
    from decodeAudioData_conformant[OF assms(1) ev[unfolded bs_def] cb' assms(7)]
    obtain h2 where "decodeAudioData h data ctx sr n = Some (Inr (h2, buf))"
      and "length (ab_channels buf) = n"
      and "ab_length buf = (if n = 0 then 0 else (length bs div 2 div n) mod 2 ^ 32)"
      and "\<forall>c < n. channelData h2 buf c
              = map (\<lambda>i. Fin (of_int (int16_at bs (i * n + c)) / 32768)) [0..<ab_length buf]"
      by (auto simp add: bs_def)
    then show ?thesis using n0 l by (auto simp add: uc)
  qed
  from A B show ?thesis by blast
qed

theorem decodeAudioData_partial_frame_witness:
  "conformant referenceContext
   \<and> u8_length \<lparr>buffer = 0, byteOffset = 0, u8_length = 3\<rparr>
       = length (arrayBuffer [Bytes [1, 0, 2]] (buffer \<lparr>buffer = 0, byteOffset = 0, u8_length = 3\<rparr>))
   \<and> u8_length \<lparr>buffer = 0, byteOffset = 0, u8_length = 3\<rparr> = 2 * 1 * 1 + 1
   \<and> odd (1 :: nat)
   \<and> decodeAudioData [Bytes [1, 0, 2]] \<lparr>buffer = 0, byteOffset = 0, u8_length = 3\<rparr>
         referenceContext 24000 1 = Some (Inl RangeError)
   \<and> u8_length \<lparr>buffer = 0, byteOffset = 0, u8_length = 6\<rparr>
       = length (arrayBuffer [Bytes [1, 0, 2, 0, 3, 0]] (buffer \<lparr>buffer = 0, byteOffset = 0, u8_length = 6\<rparr>))
   \<and> u8_length \<lparr>buffer = 0, byteOffset = 0, u8_length = 6\<rparr> = 2 * 2 * 1 + 2
   \<and> even (2 :: nat)
   \<and> (\<exists>h2 buf. decodeAudioData [Bytes [1, 0, 2, 0, 3, 0]] \<lparr>buffer = 0, byteOffset = 0, u8_length = 6\<rparr>
           referenceContext 24000 2 = Some (Inr (h2, buf))
         \<and> ab_length buf = 1
         \<and> channelData h2 buf 0 = [Fin (1 / 32768)] \<and> channelData h2 buf 1 = [Fin (2 / 32768)])"
proof -
  let ?h3 = "[Bytes [1, 0, 2]]"
  let ?d3 = "\<lparr>buffer = 0, byteOffset = 0, u8_length = 3\<rparr>"
  let ?h = "[Bytes [1, 0, 2, 0, 3, 0]]"
  let ?d = "\<lparr>buffer = 0, byteOffset = 0, u8_length = 6\<rparr>"
  have w3: "u8_length ?d3 = length (arrayBuffer ?h3 (buffer ?d3))" by (simp add: arrayBuffer_def)
  have l3: "u8_length ?d3 = 2 * 1 * 1 + 1" by simp
  have w6: "u8_length ?d = length (arrayBuffer ?h (buffer ?d))" by (simp add: arrayBuffer_def)
  have l6: "u8_length ?d = 2 * 2 * 1 + 2" by simp
  have o: "byteOffset ?d3 = 0" "byteOffset ?d = 0" by simp_all
  from decodeAudioData_partial_frame[OF conformant_referenceContext o(1) w3 l3, of 24000]
  have a: "decodeAudioData ?h3 ?d3 referenceContext 24000 1 = Some (Inl RangeError)" by simp
  have u: "to_uint32 (js_div 3 2) = 1" by (simp add: to_uint32_js_div)
  have cb: "createBuffer referenceContext ?h 2 (js_div (u8_length ?d div 2) 2) 24000
      = Inr (?h @ replicate (2 mod 2 ^ 32) (Floats (replicate (to_uint32 (js_div 3 2)) (Fin 0))),
             \<lparr>ab_sampleRate = 24000, ab_length = to_uint32 (js_div 3 2),
              ab_channels = [length ?h ..< length ?h + 2 mod 2 ^ 32]\<rparr>)"
  proof -
    have "u8_length ?d div 2 = 3" by simp
    then show ?thesis
      using createBuffer_referenceContext[of 2 "js_div 3 2" 24000 ?h]
      by (simp only: u) simp
  qed
  have s: "int16_at [1, 0, 2, 0, 3, 0] 0 = 1" "int16_at [1, 0, 2, 0, 3, 0] 1 = 2"
    by (simp_all add: int16_at_def word_cat_eq)
  have e2: "even (2 :: nat)" by simp
  from decodeAudioData_partial_frame[OF conformant_referenceContext o(2) w6 l6, of 24000] e2 cb
  obtain h2 where "decodeAudioData ?h ?d referenceContext 24000 2
       = Some (Inr (h2, \<lparr>ab_sampleRate = 24000, ab_length = to_uint32 (js_div 3 2),
              ab_channels = [length ?h ..< length ?h + 2 mod 2 ^ 32]\<rparr>))"
    and "\<forall>c < 2. channelData h2 \<lparr>ab_sampleRate = 24000, ab_length = to_uint32 (js_div 3 2),
              ab_channels = [length ?h ..< length ?h + 2 mod 2 ^ 32]\<rparr> c
           = map (\<lambda>i. Fin (of_int (int16_at (u8_contents ?h ?d) (i * 2 + c)) / 32768)) [0..<1]"
    by auto
  then have "\<exists>h2 buf. decodeAudioData ?h ?d referenceContext 24000 2 = Some (Inr (h2, buf))
         \<and> ab_length buf = 1
         \<and> channelData h2 buf 0 = [Fin (1 / 32768)] \<and> channelData h2 buf 1 = [Fin (2 / 32768)]"
    using s by (simp add: u u8_contents_def arrayBuffer_def)
  with conformant_referenceContext a w3 w6 show ?thesis by simp
qed

text \<open>
  Claim C5. For the input bytes \<open>00 00 FF 7F\<close> and one channel, \<open>decodeAudioData\<close>
  (with a conforming context that accepts the call) gives channel 0 the samples 0 and
  0.999969482421875, and \<open>createWavBlob\<close> on the same bytes with sample rate 24000 and
  one channel gives a blob of 48 bytes whose bytes 40 to 43 are \<open>04 00 00 00\<close> and whose
  last four bytes are the input. The input is a view on all of a four-byte buffer.
\<close>

theorem scenario_two_samples:
  assumes "conformant ctx"
    and "arrayBuffer h (buffer data) = [0x00, 0x00, 0xFF, 0x7F]"
    and "byteOffset data = 0" and "u8_length data = 4"
    and "createBuffer ctx h 1 (Fin 2) sr = Inr (h1, buf)"
  shows "(\<exists>h2. decodeAudioData h data ctx sr 1 = Some (Inr (h2, buf))
            \<and> channelData h2 buf 0 = [Fin 0, Fin (999969482421875 / 1000000000000000)])
     \<and> (\<exists>bs. createWavBlob h data 24000 1 = Some \<lparr>blob_bytes = bs, blob_type = ''audio/wav''\<rparr>
            \<and> length bs = 48 \<and> take 4 (drop 40 bs) = [0x04, 0x00, 0x00, 0x00]
            \<and> drop 44 bs = u8_contents h data)"
proof -
  have ev: "even (length (arrayBuffer h (buffer data)))" by (simp add: assms(2))
  have cb: "createBuffer ctx h 1 (js_div (length (arrayBuffer h (buffer data)) div 2) 1) sr
      = Inr (h1, buf)"
    using assms(5) by (simp add: assms(2) js_div_def)
  have n32: "(1::nat) < 2 ^ 32" by simp
  from decodeAudioData_conformant[OF assms(1) ev cb n32]
  obtain h2 where r: "decodeAudioData h data ctx sr 1 = Some (Inr (h2, buf))"
    and l0: "ab_length buf = (if (1::nat) = 0 then 0
               else (length (arrayBuffer h (buffer data)) div 2 div 1) mod 2 ^ 32)"
    and c0: "\<forall>c < 1. channelData h2 buf c
       = map (\<lambda>i. Fin (of_int (int16_at (arrayBuffer h (buffer data)) (i * 1 + c)) / 32768))
           [0..<ab_length buf]"
    by blast
  from l0 have l: "ab_length buf = 2" by (simp add: assms(2))
  from c0 have c: "channelData h2 buf 0
       = map (\<lambda>i. Fin (of_int (int16_at [0x00, 0x00, 0xFF, 0x7F] i) / 32768)) [0..<ab_length buf]"
    by (simp add: assms(2))
  have s: "int16_at [0x00, 0x00, 0xFF, 0x7F] 0 = 0"
    "int16_at [0x00, 0x00, 0xFF, 0x7F] (Suc 0) = 32767"
    by (simp_all add: int16_at_def word_cat_eq)
  have u: "[0..<2] = [0, Suc 0]" by (simp add: numeral_2_eq_2)
  have "channelData h2 buf 0 = [Fin 0, Fin (999969482421875 / 1000000000000000)]"
    unfolding c l u by (simp add: s)
  with r have A: "\<exists>h2. decodeAudioData h data ctx sr 1 = Some (Inr (h2, buf))
            \<and> channelData h2 buf 0 = [Fin 0, Fin (999969482421875 / 1000000000000000)]"
    by blast
  define rest where "rest = pcm_region h (newUint8Array_buffer h (buffer data)) 0 4"
  have w: "createWavBlob h data 24000 1
      = Some \<lparr>blob_bytes = wav_header 4 24000 1 @ rest, blob_type = ''audio/wav''\<rparr>"
    by (simp add: createWavBlob_eq assms(4) rest_def)
  have "length (wav_header 4 24000 1 @ rest) = 48"
    by (simp add: length_wav_header rest_def length_pcm_region)
  moreover have "take 4 (drop 40 (wav_header 4 24000 1 @ rest)) = [0x04, 0x00, 0x00, 0x00]"
    by (simp only: drop_40_wav_header) (simp add: le32_def)
  moreover have "drop 44 (wav_header 4 24000 1 @ rest) = u8_contents h data"
  proof -
    have "rest = take 4 (arrayBuffer h (buffer data))"
      unfolding rest_def by (rule pcm_region_whole) (simp add: assms(2))
    then show ?thesis
      by (simp add: length_wav_header u8_contents_def assms(2,3,4))
  qed
  ultimately have B: "\<exists>bs. createWavBlob h data 24000 1 = Some \<lparr>blob_bytes = bs, blob_type = ''audio/wav''\<rparr>
            \<and> length bs = 48 \<and> take 4 (drop 40 bs) = [0x04, 0x00, 0x00, 0x00]
            \<and> drop 44 bs = u8_contents h data"
    using w by blast
  from A B show ?thesis by blast
qed

theorem scenario_two_samples_witness:
  "conformant referenceContext
   \<and> arrayBuffer [Bytes [0x00, 0x00, 0xFF, 0x7F]] (buffer \<lparr>buffer = 0, byteOffset = 0, u8_length = 4\<rparr>)
       = [0x00, 0x00, 0xFF, 0x7F]
   \<and> createBuffer referenceContext [Bytes [0x00, 0x00, 0xFF, 0x7F]] 1 (Fin 2) 24000
       = Inr ([Bytes [0x00, 0x00, 0xFF, 0x7F], Floats [Fin 0, Fin 0]],
              \<lparr>ab_sampleRate = 24000, ab_length = 2, ab_channels = [1]\<rparr>)
   \<and> (\<exists>h2. decodeAudioData [Bytes [0x00, 0x00, 0xFF, 0x7F]] \<lparr>buffer = 0, byteOffset = 0, u8_length = 4\<rparr>
            referenceContext 24000 1
          = Some (Inr (h2, \<lparr>ab_sampleRate = 24000, ab_length = 2, ab_channels = [1]\<rparr>))
        \<and> channelData h2 \<lparr>ab_sampleRate = 24000, ab_length = 2, ab_channels = [1]\<rparr> 0
          = [Fin 0, Fin (999969482421875 / 1000000000000000)])
   \<and> (\<exists>bs. createWavBlob [Bytes [0x00, 0x00, 0xFF, 0x7F]] \<lparr>buffer = 0, byteOffset = 0, u8_length = 4\<rparr>
            24000 1 = Some \<lparr>blob_bytes = bs, blob_type = ''audio/wav''\<rparr>
        \<and> length bs = 48 \<and> take 4 (drop 40 bs) = [0x04, 0x00, 0x00, 0x00]
        \<and> drop 44 bs = [0x00, 0x00, 0xFF, 0x7F])"
proof -
  let ?h = "[Bytes [0x00, 0x00, 0xFF, 0x7F]]"
  let ?d = "\<lparr>buffer = 0, byteOffset = 0, u8_length = 4\<rparr>"
  have a: "arrayBuffer ?h (buffer ?d) = [0x00, 0x00, 0xFF, 0x7F]"
    by (simp add: arrayBuffer_def)
  have cb: "createBuffer referenceContext ?h 1 (Fin 2) 24000
       = Inr ([Bytes [0x00, 0x00, 0xFF, 0x7F], Floats [Fin 0, Fin 0]],
              \<lparr>ab_sampleRate = 24000, ab_length = 2, ab_channels = [1]\<rparr>)"
    by (simp add: referenceContext_def replicate_2)
  have u: "u8_contents ?h ?d = [0x00, 0x00, 0xFF, 0x7F]"
    by (simp add: u8_contents_def arrayBuffer_def)
  from scenario_two_samples[OF conformant_referenceContext a _ _ cb]
    conformant_referenceContext a cb u
  show ?thesis by simp
qed

text \<open>
  What \<open>decodeAudioData\<close> returns depends on its input through the whole buffer behind
  \<open>data\<close>: with conforming contexts, two calls that see the same bytes in that buffer
  return the same channels, length and sample rate, and the call leaves every cell of the
  store it was given unchanged.
\<close>

lemma decodeAudioData_buffer_deterministic:
  assumes "conformant ctx1" and "conformant ctx2"
    and "arrayBuffer hA (buffer dA) = arrayBuffer hB (buffer dB)"
    and "decodeAudioData hA dA ctx1 sr n = Some (Inr (hA', bufA))"
    and "decodeAudioData hB dB ctx2 sr n = Some (Inr (hB', bufB))"
  shows "map (channelData hA' bufA) [0..<n] = map (channelData hB' bufB) [0..<n]
     \<and> length (ab_channels bufA) = n \<and> length (ab_channels bufB) = n
     \<and> ab_length bufA = ab_length bufB
     \<and> ab_sampleRate bufA = sr \<and> ab_sampleRate bufB = sr
     \<and> take (length hA) hA' = hA \<and> take (length hB) hB' = hB"
proof -
  define bs where "bs = arrayBuffer hA (buffer dA)"
  have bsB: "arrayBuffer hB (buffer dB) = bs" using assms(3) by (simp add: bs_def)
  define len where "len = (if n = 0 then 0 else (length bs div 2 div n) mod 2 ^ 32)"
  define f where "f = (\<lambda>c. map (\<lambda>i. Fin (of_int (int16_at bs (i * n + c)) / 32768)) [0..<len])"
  have main: "map (channelData h' buf) [0..<n] = map f [0..<n] \<and> length (ab_channels buf) = n
      \<and> ab_length buf = len \<and> ab_sampleRate buf = sr \<and> take (length h) h' = h"
    if conf: "conformant ctx" and bs: "arrayBuffer h (buffer d) = bs"
      and res: "decodeAudioData h d ctx sr n = Some (Inr (h', buf))"
    for ctx h d h' buf
  proof -
    from decodeAudioData_InrD[OF conf res] obtain h1 where
      ev: "even (length (arrayBuffer h (buffer d)))" and n32: "n < 2 ^ 32"
      and cb: "createBuffer ctx h n (js_div (length (arrayBuffer h (buffer d)) div 2) n) sr = Inr (h1, buf)"
      by auto
    from decodeAudioData_conformant[OF conf ev cb n32]
    obtain h2 where r: "decodeAudioData h d ctx sr n = Some (Inr (h2, buf))"
      and k: "take (length h) h2 = h" and sr: "ab_sampleRate buf = sr"
      and nc: "length (ab_channels buf) = n" and l: "ab_length buf = len"
      and c: "\<forall>c < n. channelData h2 buf c = f c"
      by (auto simp add: bs len_def f_def)
    from r res have "h2 = h'" by simp
    with k sr nc l c show ?thesis by simp
  qed
  from main[OF assms(1) bs_def[symmetric] assms(4)] main[OF assms(2) bsB assms(5)]
  show ?thesis by simp
qed

text \<open>
  Two evaluations with the reference context, sample rate 24000 and one channel: on a
  buffer holding \<open>01 00\<close> and on a buffer holding \<open>01 00 02 00\<close>, for any view on it.
\<close>

lemma decodeAudioData_two_bytes:
  "decodeAudioData [Bytes [1, 0]] \<lparr>buffer = 0, byteOffset = off, u8_length = len\<rparr>
     referenceContext 24000 1
   = Some (Inr ([Bytes [1, 0], Floats [Fin (1 / 32768)]],
                \<lparr>ab_sampleRate = 24000, ab_length = 1, ab_channels = [1]\<rparr>))"
proof -
  let ?h = "[Bytes [1, 0]]"
  let ?d = "\<lparr>i16_buffer = 0, i16_length = Suc 0\<rparr>"
  let ?buf = "\<lparr>ab_sampleRate = 24000, ab_length = Suc 0, ab_channels = [Suc 0]\<rparr>"
  let ?h1 = "[Bytes [1, 0], Floats [Fin 0]]"
  have 1: "newInt16Array_buffer ?h 0 = Inr ?d"
    by (simp add: newInt16Array_buffer_def arrayBuffer_def)
  have 2: "js_div (Suc 0) (Suc 0) = Fin 1" by (simp add: js_div_def)
  have 3: "createBuffer referenceContext ?h (Suc 0) (Fin 1) 24000 = Inr (?h1, ?buf)"
    by (simp add: referenceContext_def)
  have 4: "frame_loop ?d (Suc 0) (Suc 0) 0 (Fin 1) 0 ?h1
      = Some [Bytes [1, 0], Floats [Fin (1 / 32768)]]"
    by (simp add: frame_loop.simps f32_set_def div_32768_def i16_get_def arrayBuffer_def
        int16_at_def word_cat_eq)
  have 5: "channel_loop ?d ?buf (Suc 0) (Fin 1) 0 ?h1
      = Some (Inr [Bytes [1, 0], Floats [Fin (1 / 32768)]])"
    by (simp add: channel_loop.simps getChannelData_def 4)
  show ?thesis
    by (simp add: decodeAudioData_def 1 2 3 5)
qed

lemma decodeAudioData_four_bytes:
  "decodeAudioData [Bytes [1, 0, 2, 0]] \<lparr>buffer = 0, byteOffset = off, u8_length = len\<rparr>
     referenceContext 24000 1
   = Some (Inr ([Bytes [1, 0, 2, 0], Floats [Fin (1 / 32768), Fin (2 / 32768)]],
                \<lparr>ab_sampleRate = 24000, ab_length = 2, ab_channels = [1]\<rparr>))"
proof -
  let ?h = "[Bytes [1, 0, 2, 0]]"
  let ?d = "\<lparr>i16_buffer = 0, i16_length = 2\<rparr>"
  let ?buf = "\<lparr>ab_sampleRate = 24000, ab_length = 2, ab_channels = [Suc 0]\<rparr>"
  let ?h1 = "[Bytes [1, 0, 2, 0], Floats [Fin 0, Fin 0]]"
  have 1: "newInt16Array_buffer ?h 0 = Inr ?d"
    by (simp add: newInt16Array_buffer_def arrayBuffer_def)
  have 2: "js_div 2 (Suc 0) = Fin 2" by (simp add: js_div_def)
  have 3: "createBuffer referenceContext ?h (Suc 0) (Fin 2) 24000 = Inr (?h1, ?buf)"
    by (simp add: referenceContext_def replicate_2)
  have 4: "frame_loop ?d (Suc 0) (Suc 0) 0 (Fin 2) 0 ?h1
      = Some [Bytes [1, 0, 2, 0], Floats [Fin (1 / 32768), Fin (2 / 32768)]]"
    by (simp add: frame_loop.simps f32_set_def div_32768_def i16_get_def arrayBuffer_def
        int16_at_def word_cat_eq)
  have 5: "channel_loop ?d ?buf (Suc 0) (Fin 2) 0 ?h1
      = Some (Inr [Bytes [1, 0, 2, 0], Floats [Fin (1 / 32768), Fin (2 / 32768)]])"
    by (simp add: channel_loop.simps getChannelData_def 4)
  show ?thesis
    by (simp add: decodeAudioData_def 1 2 3 5)
qed

text \<open>
  Claim C7, at inputs where the code departs from it. The claim: the content of the buffer
  is a function of the input bytes, the sample rate and the channel count, and the input
  is not changed. Take two inputs that show the same two bytes \<open>01 00\<close>: a view on all
  of a two-byte buffer, and the view on the first two bytes of the four-byte buffer
  \<open>01 00 02 00\<close> (\<open>new Uint8Array(buf, 0, 2)\<close>). With the same context, sample rate
  and channel count the first call returns one frame and the second two frames, the second
  frame read from bytes outside the input: \<open>new Int16Array(data.buffer)\<close> takes the whole
  buffer and not the view. Neither call changes its input.
\<close>

theorem decodeAudioData_same_bytes_differ:
  "valid_u8 [Bytes [1, 0]] \<lparr>buffer = 0, byteOffset = 0, u8_length = 2\<rparr>
   \<and> valid_u8 [Bytes [1, 0, 2, 0]] \<lparr>buffer = 0, byteOffset = 0, u8_length = 2\<rparr>
   \<and> u8_contents [Bytes [1, 0]] \<lparr>buffer = 0, byteOffset = 0, u8_length = 2\<rparr> = [1, 0]
   \<and> u8_contents [Bytes [1, 0, 2, 0]] \<lparr>buffer = 0, byteOffset = 0, u8_length = 2\<rparr> = [1, 0]
   \<and> decodeAudioData [Bytes [1, 0]] \<lparr>buffer = 0, byteOffset = 0, u8_length = 2\<rparr>
         referenceContext 24000 1
       = Some (Inr ([Bytes [1, 0], Floats [Fin (1 / 32768)]],
                    \<lparr>ab_sampleRate = 24000, ab_length = 1, ab_channels = [1]\<rparr>))
   \<and> decodeAudioData [Bytes [1, 0, 2, 0]] \<lparr>buffer = 0, byteOffset = 0, u8_length = 2\<rparr>
         referenceContext 24000 1
       = Some (Inr ([Bytes [1, 0, 2, 0], Floats [Fin (1 / 32768), Fin (2 / 32768)]],
                    \<lparr>ab_sampleRate = 24000, ab_length = 2, ab_channels = [1]\<rparr>))"
  by (simp only: decodeAudioData_two_bytes decodeAudioData_four_bytes)
    (simp add: valid_u8_def u8_contents_def arrayBuffer_def)

lemma js_div_fraction:
  assumes "0 < n" and "\<not> n dvd a"
  shows "js_div a n = Fin (of_nat a / of_nat n)"
    and "rat_of_int \<lfloor>rat_of_nat a / rat_of_nat n\<rfloor> < rat_of_nat a / rat_of_nat n"
    and "rat_of_nat a / rat_of_nat n \<notin> \<int>"
proof -
  show "js_div a n = Fin (of_nat a / of_nat n)" using assms(1) by (simp add: js_div_def)
  have m: "0 < a mod n" using assms by (simp add: dvd_eq_mod_eq_0)
  have "a div n * n < a" using m div_mult_mod_eq[of a n] by linarith
  then have "rat_of_nat (a div n * n) < rat_of_nat a" by (simp only: of_nat_less_iff)
  then have "rat_of_nat (a div n) * rat_of_nat n < rat_of_nat a" by simp
  then have "rat_of_nat (a div n) < rat_of_nat a / rat_of_nat n"
    using assms(1) by (simp add: pos_less_divide_eq)
  moreover have "\<lfloor>rat_of_nat a / rat_of_nat n\<rfloor> = int (a div n)"
    by (simp add: floor_divide_of_nat_eq)
  ultimately show lt: "rat_of_int \<lfloor>rat_of_nat a / rat_of_nat n\<rfloor> < rat_of_nat a / rat_of_nat n"
    by simp
  show "rat_of_nat a / rat_of_nat n \<notin> \<int>"
  proof
    assume "rat_of_nat a / rat_of_nat n \<in> \<int>"
    then have "rat_of_int \<lfloor>rat_of_nat a / rat_of_nat n\<rfloor> = rat_of_nat a / rat_of_nat n"
      by (rule Ints_cases) simp
    with lt show False by simp
  qed
qed

text \<open>
  \<open>decodeAudioData\<close> builds its \<open>Int16Array\<close> on the whole buffer behind the input and
  passes the exact quotient \<open>dataInt16.length / numChannels\<close> to \<open>createBuffer\<close>. When
  the byte length of that buffer is odd, the call fails with the constructor's
  \<open>RangeError\<close>, whatever the context; when it is even, the context is called with that
  quotient; and when the number of 16-bit samples in the buffer is not a multiple of
  \<open>numChannels\<close> the quotient is not an integer. For an input that is a view on all of
  its buffer these are the byte length and the sample count of the input.
\<close>

lemma decodeAudioData_exact_quotient:
  "(odd (length (arrayBuffer h (buffer data)))
      \<longrightarrow> decodeAudioData h data ctx sr n = Some (Inl RangeError))
   \<and> (even (length (arrayBuffer h (buffer data))) \<longrightarrow>
        (\<forall>e. createBuffer ctx h n (js_div (length (arrayBuffer h (buffer data)) div 2) n) sr = Inl e
             \<longrightarrow> decodeAudioData h data ctx sr n = Some (Inl e))
      \<and> (\<forall>h2 buf. decodeAudioData h data ctx sr n = Some (Inr (h2, buf))
             \<longrightarrow> (\<exists>h1. createBuffer ctx h n (js_div (length (arrayBuffer h (buffer data)) div 2) n) sr
                         = Inr (h1, buf))))
   \<and> (0 < n \<and> \<not> n dvd length (arrayBuffer h (buffer data)) div 2 \<longrightarrow>
        js_div (length (arrayBuffer h (buffer data)) div 2) n
          = Fin (of_nat (length (arrayBuffer h (buffer data)) div 2) / of_nat n)
      \<and> rat_of_nat (length (arrayBuffer h (buffer data)) div 2) / rat_of_nat n \<notin> \<int>
      \<and> rat_of_int \<lfloor>rat_of_nat (length (arrayBuffer h (buffer data)) div 2) / rat_of_nat n\<rfloor>
          < rat_of_nat (length (arrayBuffer h (buffer data)) div 2) / rat_of_nat n)"
proof -
  define L where "L = length (arrayBuffer h (buffer data))"
  define d where "d = \<lparr>i16_buffer = buffer data, i16_length = L div 2\<rparr>"
  define fc where "fc = js_div (L div 2) n"
  have odd: "decodeAudioData h data ctx sr n = Some (Inl RangeError)" if "odd L"
    using that by (simp add: decodeAudioData_def newInt16Array_buffer_def L_def odd_iff_mod_2_eq_one)
  have dec: "decodeAudioData h data ctx sr n =
      (case createBuffer ctx h n fc sr of
         Inl e \<Rightarrow> Some (Inl e)
       | Inr (h1, buf) \<Rightarrow>
           (case channel_loop d buf n fc 0 h1 of
              None \<Rightarrow> None
            | Some (Inl e) \<Rightarrow> Some (Inl e)
            | Some (Inr h2) \<Rightarrow> Some (Inr (h2, buf))))" if "even L"
    using that unfolding L_def d_def fc_def
    by (simp add: decodeAudioData_def newInt16Array_buffer_def Let_def)
  have err: "decodeAudioData h data ctx sr n = Some (Inl e)"
    if "even L" "createBuffer ctx h n fc sr = Inl e" for e
    using that by (simp add: dec)
  have ok: "\<exists>h1. createBuffer ctx h n fc sr = Inr (h1, buf)"
    if "even L" "decodeAudioData h data ctx sr n = Some (Inr (h2, buf))" for h2 buf
    using that by (auto simp add: dec split: sum.splits option.splits)
  have frac: "fc = Fin (of_nat (L div 2) / of_nat n)
      \<and> rat_of_nat (L div 2) / rat_of_nat n \<notin> \<int>
      \<and> rat_of_int \<lfloor>rat_of_nat (L div 2) / rat_of_nat n\<rfloor> < rat_of_nat (L div 2) / rat_of_nat n"
    if "0 < n" "\<not> n dvd L div 2"
    using js_div_fraction[OF that] by (simp add: fc_def)
  from odd err ok frac show ?thesis
    unfolding L_def fc_def by blast
qed


section \<open>Base64 decoding inverts the reference encoder; the copy loop of \<open>decode\<close>\<close>

lemma index_of_nth: "distinct xs \<Longrightarrow> i < length xs \<Longrightarrow> index_of (xs ! i) xs = Some i"
proof (induction xs arbitrary: i)
  case Nil
  then show ?case by simp
next
  case (Cons y ys)
  show ?case
  proof (cases i)
    case 0
    then show ?thesis by simp
  next
    case (Suc j)
    with Cons.prems have j: "j < length ys" "distinct ys" "ys ! j \<noteq> y" by auto
    with Cons.IH[of j] Suc show ?thesis by simp
  qed
qed

lemma index_of_None: "index_of x xs = None \<longleftrightarrow> x \<notin> set xs"
  by (induction xs) auto

lemma length_b64_alphabet: "length b64_alphabet = 64"
  by (simp add: b64_alphabet_def)

lemma distinct_b64_alphabet: "distinct b64_alphabet"
  by (simp add: b64_alphabet_def)

lemma b64_index_char: "s < 64 \<Longrightarrow> b64_index (b64_char s) = Some s"
  by (simp add: b64_index_def b64_char_def index_of_nth distinct_b64_alphabet length_b64_alphabet)

lemma b64_char_in: "s < 64 \<Longrightarrow> b64_char s \<in> set b64_alphabet"
  by (simp add: b64_char_def length_b64_alphabet)

lemma pad_not_in: "CHR ''='' \<notin> set b64_alphabet"
  by (simp add: b64_alphabet_def)

lemma no_whitespace_in: "c \<in> set b64_alphabet \<Longrightarrow> \<not> ascii_whitespace c"
  by (auto simp add: b64_alphabet_def ascii_whitespace_def)

lemma pad_not_whitespace: "\<not> ascii_whitespace (CHR ''='')"
  by (simp add: ascii_whitespace_def)

lemma recombine:
  "((n div 262144 * 64 + n div 4096 mod 64) * 64 + n div 64 mod 64) * 64 + n mod 64 = (n::nat)"
proof -
  define k where "k = n div 64"
  define k2 where "k2 = k div 64"
  have a: "n div 4096 = k2" by (simp add: k2_def k_def div_mult2_eq[symmetric])
  have b: "n div 262144 = k2 div 64" by (simp add: k2_def k_def div_mult2_eq[symmetric])
  have "(k2 div 64 * 64 + k2 mod 64) = k2" by simp
  then have "((k2 div 64 * 64 + k2 mod 64) * 64 + k mod 64) = k" by (simp add: k2_def)
  then have "((k2 div 64 * 64 + k2 mod 64) * 64 + k mod 64) * 64 + n mod 64 = n"
    by (simp add: k_def)
  then show ?thesis by (simp only: a b k_def[symmetric])
qed

lemma unat_byte_lt: "unat (a :: byte) < 256"
  using unsigned_less[of a, where 'a = nat] by simp

lemma sextets_lt: "s \<in> set (sextets X) \<Longrightarrow> s < 64"
proof (induction X arbitrary: s rule: sextets.induct)
  case (1 a b c rest)
  have "unat a * 65536 + unat b * 256 + unat c < 16777216"
    using unat_byte_lt[of a] unat_byte_lt[of b] unat_byte_lt[of c] by linarith
  then have "(unat a * 65536 + unat b * 256 + unat c) div 262144 < 64" by simp
  with 1 show ?case by (auto simp add: Let_def)
next
  case (2 a b)
  have "(unat a * 256 + unat b) * 4 < 262144"
    using unat_byte_lt[of a] unat_byte_lt[of b] by (simp add: algebra_simps)
  then have "(unat a * 256 + unat b) * 4 div 4096 < 64" by simp
  with 2 show ?case by (auto simp add: Let_def)
next
  case (3 a)
  have "unat a * 16 < 4096" using unat_byte_lt[of a] by linarith
  then have "unat a * 16 div 64 < 64" by simp
  with 3 show ?case by (auto simp add: Let_def)
next
  case 4
  then show ?case by simp
qed

lemma length_sextets:
  "length (sextets X) mod 4 = (if length X mod 3 = 0 then 0 else length X mod 3 + 1)"
proof (induction X rule: sextets.induct)
  case (1 a b c rest)
  have "length (a # b # c # rest) mod 3 = length rest mod 3" by simp
  moreover have "length (sextets (a # b # c # rest)) mod 4 = length (sextets rest) mod 4"
    by (simp add: Let_def)
  ultimately show ?case using 1 by simp
qed (simp_all add: Let_def)

lemma b64_groups_4:
  "b64_groups ([n div 262144, n div 4096 mod 64, n div 64 mod 64, n mod 64] @ rest)
     = [n div 65536, n div 256 mod 256, n mod 256] @ b64_groups rest"
  by (simp only: append_Cons append_Nil b64_groups.simps Let_def recombine)

lemma recombine3: "(n div 4096 * 64 + n div 64 mod 64) * 64 + n mod 64 = (n::nat)"
proof -
  have "n div 4096 = n div 64 div 64" by (simp add: div_mult2_eq[symmetric])
  then have "n div 4096 * 64 + n div 64 mod 64 = n div 64" by simp
  then show ?thesis by simp
qed

lemma b64_groups_3:
  "b64_groups [n div 4096, n div 64 mod 64, n mod 64] = [n div 4 div 256, n div 4 mod 256]"
  by (simp only: b64_groups.simps Let_def recombine3)

lemma b64_groups_2: "b64_groups [n div 64, n mod 64] = [n div 16]"
  by (simp only: b64_groups.simps div_mult_mod_eq)

lemma b64_groups_sextets: "b64_groups (sextets X) = map unat X"
proof (induction X rule: sextets.induct)
  case (1 a b c rest)
  define n where "n = unat a * 65536 + unat b * 256 + unat c"
  have la: "unat a < 256" and lb: "unat b < 256" and lc: "unat c < 256"
    by (rule unat_byte_lt)+
  have 1: "n div 65536 = unat a" using lb lc by (simp add: n_def)
  have 2: "n div 256 mod 256 = unat b"
  proof -
    have "n div 256 = unat a * 256 + unat b" using lc by (simp add: n_def)
    then show ?thesis using lb by simp
  qed
  have 3: "n mod 256 = unat c"
  proof -
    have "n = (unat a * 256 + unat b) * 256 + unat c" by (simp add: n_def)
    then have "n mod 256 = unat c mod 256" by (simp only: mod_mult_self3)
    then show ?thesis using lc by simp
  qed
  have "sextets (a # b # c # rest)
      = [n div 262144, n div 4096 mod 64, n div 64 mod 64, n mod 64] @ sextets rest"
    by (simp add: Let_def n_def)
  then have "b64_groups (sextets (a # b # c # rest))
      = [n div 65536, n div 256 mod 256, n mod 256] @ b64_groups (sextets rest)"
    by (simp only: b64_groups_4)
  also have "b64_groups (sextets rest) = map unat rest"
    by (rule "1.IH") (rule refl)
  finally show ?case by (simp add: 1 2 3)
next
  case (2 a b)
  define n where "n = (unat a * 256 + unat b) * 4"
  have lb: "unat b < 256" by (rule unat_byte_lt)
  have "sextets [a, b] = [n div 4096, n div 64 mod 64, n mod 64]"
    by (simp add: Let_def n_def)
  then have "b64_groups (sextets [a, b]) = [n div 4 div 256, n div 4 mod 256]"
    by (simp only: b64_groups_3)
  moreover have "n div 4 = unat a * 256 + unat b" by (simp add: n_def)
  ultimately show ?case using lb by simp
next
  case (3 a)
  define n where "n = unat a * 16"
  have "sextets [a] = [n div 64, n mod 64]" by (simp add: Let_def n_def)
  then have "b64_groups (sextets [a]) = [n div 16]" by (simp only: b64_groups_2)
  then show ?case by (simp add: n_def)
next
  case 4
  show ?case by simp
qed

lemma body_in_alphabet: "c \<in> set (map b64_char (sextets X)) \<Longrightarrow> c \<in> set b64_alphabet"
  by (auto simp add: b64_char_in sextets_lt)

lemma filter_whitespace_enc:
  "filter (\<lambda>c. \<not> ascii_whitespace c) (base64Encode X) = base64Encode X"
proof (rule filter_True, rule ballI)
  fix c assume "c \<in> set (base64Encode X)"
  then consider "c \<in> set (map b64_char (sextets X))" | "c = CHR ''=''"
    by (auto simp add: base64Encode_def)
  then show "\<not> ascii_whitespace c"
  proof cases
    case 1
    then show ?thesis by (intro no_whitespace_in body_in_alphabet)
  next
    case 2
    then show ?thesis by (simp add: pad_not_whitespace)
  qed
qed

lemma strip_padding_body:
  assumes no: "CHR ''='' \<notin> set body"
    and len: "(length body + p) mod 4 = 0" and p: "p \<le> 2"
  shows "strip_padding (body @ replicate p (CHR ''='')) = body"
proof -
  consider "p = 0" | "p = 1" | "p = 2" using p by linarith
  then show ?thesis
  proof cases
    case 1
    have a: "drop (length body - 2) body \<noteq> ''==''"
    proof
      assume "drop (length body - 2) body = ''==''"
      then have "CHR ''='' \<in> set (drop (length body - 2) body)" by simp
      then show False using no by (auto dest: in_set_dropD)
    qed
    have b: "drop (length body - 1) body \<noteq> ''=''"
    proof
      assume "drop (length body - 1) body = ''=''"
      then have "CHR ''='' \<in> set (drop (length body - 1) body)" by simp
      then show False using no by (auto dest: in_set_dropD)
    qed
    show ?thesis using 1 a b by (simp add: strip_padding_def)
  next
    case 2
    from len 2 have l: "3 \<le> length body" by (cases "length body < 3") (auto simp add: mod_Suc)
    then have ne: "body \<noteq> []" by auto
    have "drop (length body - 1) body = [last body]"
      using ne by (metis append_butlast_last_id append_eq_conv_conj length_butlast)
    then have d: "drop (length body - 1) (body @ ''='') = [last body, CHR ''='']"
      using l by simp
    have "last body \<noteq> CHR ''=''" using no ne last_in_set by metis
    with d have a: "drop (length body - 1) (body @ ''='') \<noteq> ''==''" by simp
    have r: "replicate p (CHR ''='') = ''=''" by (simp add: 2)
    have s: "length (body @ ''='') - 2 = length body - 1" using l by simp
    have m: "length (body @ ''='') mod 4 = 0" using len 2 by simp
    show ?thesis
      unfolding r strip_padding_def s using a m by simp
  next
    case 3
    show ?thesis using len by (simp add: strip_padding_def 3 replicate_2)
  qed
qed

lemma map_filter_map_Some:
  "(\<And>x. x \<in> set xs \<Longrightarrow> f (g x) = Some x) \<Longrightarrow> List.map_filter f (map g xs) = xs"
  by (induction xs) (simp_all add: List.map_filter_simps)

lemma atob_base64Encode:
  "forgiving_base64_decode (base64Encode X) = Inr (map (\<lambda>b. char_of (unat b)) X)"
proof -
  define body where "body = map b64_char (sextets X)"
  define p where "p = (3 - length X mod 3) mod 3"
  have enc: "base64Encode X = body @ replicate p (CHR ''='')"
    by (simp add: base64Encode_def body_def p_def)
  have no: "CHR ''='' \<notin> set body"
    using body_in_alphabet[of "CHR ''=''" X] pad_not_in by (auto simp add: body_def)
  have lm: "length body mod 4 = (if length X mod 3 = 0 then 0 else length X mod 3 + 1)"
    by (simp add: body_def length_sextets)
  have m3: "length X mod 3 = 0 \<or> length X mod 3 = 1 \<or> length X mod 3 = 2" by linarith
  have p2: "p \<le> 2" by (simp add: p_def)
  have len: "(length body + p) mod 4 = 0"
  proof -
    have "(length body + p) mod 4 = (length body mod 4 + p) mod 4" by (simp add: mod_add_left_eq)
    then show ?thesis using m3 by (auto simp add: lm p_def)
  qed
  have ne1: "length body mod 4 \<noteq> 1" using m3 by (auto simp add: lm)
  have strip: "strip_padding (filter (\<lambda>c. \<not> ascii_whitespace c) (base64Encode X)) = body"
    unfolding filter_whitespace_enc unfolding enc by (rule strip_padding_body[OF no len p2])
  have idx: "\<not> list_ex (\<lambda>c. b64_index c = None) body"
    by (auto simp add: body_def list_ex_iff b64_index_char sextets_lt)
  have mf: "List.map_filter b64_index body = sextets X"
    unfolding body_def by (rule map_filter_map_Some) (simp add: b64_index_char sextets_lt)
  show ?thesis
    using ne1 by (simp add: forgiving_base64_decode_def strip Let_def idx mf b64_groups_sextets)
qed

lemma decode_loop_copies:
  assumes "a < length h" and "h ! a = Bytes bs" and "length bs = len" and "length s = len"
  shows "decode_loop s len \<lparr>buffer = a, byteOffset = 0, u8_length = len\<rparr> i h
       = h[a := Bytes (map (\<lambda>k. if i \<le> k then of_char (s ! k) else bs ! k) [0..<len])]"
  using assms
proof (induction "len - i" arbitrary: i h bs)
  case 0
  then have i: "len \<le> i" by simp
  then have "map (\<lambda>k. if i \<le> k then of_char (s ! k) else bs ! k) [0..<len] = map ((!) bs) [0..<len]"
    by simp
  also have "\<dots> = bs" using 0(4) map_nth[of bs] by simp
  finally have "h[a := Bytes (map (\<lambda>k. if i \<le> k then of_char (s ! k) else bs ! k) [0..<len])] = h"
    using 0(2,3) by (simp add: list_update_same_conv)
  moreover have "decode_loop s len \<lparr>buffer = a, byteOffset = 0, u8_length = len\<rparr> i h = h"
    using i by (subst decode_loop.simps) simp
  ultimately show ?case by simp
next
  case (Suc x)
  then have i: "i < len" by simp
  let ?v = "\<lparr>buffer = a, byteOffset = 0, u8_length = len\<rparr>"
  define bs' where "bs' = bs[i := (of_char (s ! i) :: byte)]"
  define h' where "h' = h[a := Bytes bs']"
  have u: "u8_set h ?v i (charCodeAt s i) = h'"
    using i Suc(3,4,5,6) by (simp add: u8_set_def charCodeAt_def h'_def bs'_def of_nat_of_char)
  have x: "x = len - Suc i" using Suc(2) by simp
  have "decode_loop s len ?v (Suc i) h'
      = h'[a := Bytes (map (\<lambda>k. if Suc i \<le> k then of_char (s ! k) else bs' ! k) [0..<len])]"
    using Suc(3,5,6) by (intro Suc(1)[OF x]) (simp_all add: h'_def bs'_def)
  also have "\<dots> = h[a := Bytes (map (\<lambda>k. if Suc i \<le> k then of_char (s ! k) else bs' ! k) [0..<len])]"
    by (simp add: h'_def)
  also have "map (\<lambda>k. if Suc i \<le> k then of_char (s ! k) else bs' ! k) [0..<len]
      = map (\<lambda>k. if i \<le> k then of_char (s ! k) else bs ! k) [0..<len]"
    using Suc(5) by (auto simp add: bs'_def nth_list_update Suc_le_eq)
  finally have r: "decode_loop s len ?v (Suc i) h'
      = h[a := Bytes (map (\<lambda>k. if i \<le> k then of_char (s ! k) else bs ! k) [0..<len])]" .
  show ?case
    by (subst decode_loop.simps) (simp add: i u r)
qed

lemma decode_copies:
  assumes "atob base64 = Inr b"
  shows "decode atob h base64
       = Inr (h @ [Bytes (map of_char b)], \<lparr>buffer = length h, byteOffset = 0, u8_length = length b\<rparr>)"
proof -
  let ?h1 = "h @ [Bytes (replicate (length b) 0)]"
  have "decode_loop b (length b) \<lparr>buffer = length h, byteOffset = 0, u8_length = length b\<rparr> 0 ?h1
      = ?h1[length h := Bytes (map (\<lambda>k. if 0 \<le> k then of_char (b ! k) else replicate (length b) 0 ! k)
                                 [0..<length b])]"
    by (rule decode_loop_copies) simp_all
  also have "\<dots> = h @ [Bytes (map (\<lambda>k. of_char (b ! k)) [0..<length b])]" by simp
  also have "map (\<lambda>k. of_char (b ! k)) [0..<length b] = map of_char b"
    by (rule nth_equalityI) simp_all
  finally show ?thesis
    using assms by (simp add: decode_def newUint8Array_def)
qed

lemma byte_of_char_of: "(of_char (char_of (unat (x :: byte))) :: byte) = x"
proof -
  have "(of_char (char_of (unat x)) :: byte) = of_nat (of_char (char_of (unat x)))"
    by (simp only: of_nat_of_char)
  also have "\<dots> = of_nat (unat x mod 256)" by simp
  also have "\<dots> = x" using unat_byte_lt[of x] by simp
  finally show ?thesis .
qed

lemma decode_standard_atob:
  "decode forgiving_base64_decode h (base64Encode X)
     = Inr (h @ [Bytes X], \<lparr>buffer = length h, byteOffset = 0, u8_length = length X\<rparr>)"
proof -
  have "map of_char (map (\<lambda>b. char_of (unat b)) X) = X"
    by (rule nth_equalityI) (simp_all add: byte_of_char_of)
  with decode_copies[of forgiving_base64_decode "base64Encode X" "map (\<lambda>b. char_of (unat b)) X" h,
      OF atob_base64Encode]
  show ?thesis by simp
qed

section \<open>Claim about \<open>decode\<close>\<close>

text \<open>
  Claim C6. For every byte sequence \<open>X\<close>, \<open>decode\<close> applied to the reference base64
  encoding of \<open>X\<close> returns exactly \<open>X\<close>: a fresh array whose length is that of the
  decoded binary string and whose bytes are the character codes, unchanged. The host's
  \<open>atob\<close> is a parameter and is assumed to invert the reference encoder at \<open>X\<close>, as
  the decoder of the HTML standard does for every \<open>X\<close> (\<open>atob_base64Encode\<close>).
\<close>

theorem decode_roundtrip:
  assumes "atob (base64Encode X) = Inr (map (\<lambda>b. char_of (unat b)) X)"
  shows "\<exists>h' bytes. decode atob h (base64Encode X) = Inr (h', bytes)
     \<and> u8_length bytes = length X \<and> valid_u8 h' bytes
     \<and> u8_contents h' bytes = X \<and> take (length h) h' = h"
proof -
  have "map of_char (map (\<lambda>b. char_of (unat b)) X) = X"
    by (rule nth_equalityI) (simp_all add: byte_of_char_of)
  with decode_copies[of atob "base64Encode X" "map (\<lambda>b. char_of (unat b)) X" h, OF assms]
  have "decode atob h (base64Encode X)
      = Inr (h @ [Bytes X], \<lparr>buffer = length h, byteOffset = 0, u8_length = length X\<rparr>)"
    by simp
  then show ?thesis
    by (simp add: valid_u8_def u8_contents_def arrayBuffer_def)
qed

theorem decode_roundtrip_witness:
  "forgiving_base64_decode (base64Encode [0x00, 0x00, 0xFF, 0x7F])
     = Inr (map (\<lambda>b. char_of (unat b)) [0x00, 0x00, 0xFF, 0x7F :: byte])
   \<and> base64Encode [0x00, 0x00, 0xFF, 0x7F] = ''AAD/fw==''
   \<and> (\<exists>h' bytes. decode forgiving_base64_decode [] ''AAD/fw=='' = Inr (h', bytes)
         \<and> u8_length bytes = 4 \<and> u8_contents h' bytes = [0x00, 0x00, 0xFF, 0x7F])"
proof -
  have e: "base64Encode [0x00, 0x00, 0xFF, 0x7F] = ''AAD/fw==''"
    by (simp add: base64Encode_def b64_char_def b64_alphabet_def replicate_2)
  have a: "forgiving_base64_decode (base64Encode [0x00, 0x00, 0xFF, 0x7F])
     = Inr (map (\<lambda>b. char_of (unat b)) [0x00, 0x00, 0xFF, 0x7F :: byte])"
    by (rule atob_base64Encode)
  from decode_roundtrip[of forgiving_base64_decode "[0x00, 0x00, 0xFF, 0x7F]" "[]", OF a] a e
  show ?thesis by auto
qed

end
